theory Spec2Isabelle
  imports Complex_Main "HOL-Library.Sublist" "HOL-Library.Multiset"
begin

section \<open>Data model\<close>

text \<open>
  The three Euler angles of a single-qubit rotation. The source holds them in a
  three-element tensor of floats (\<^verbatim>\<open>stack(...)\<close>, \<^verbatim>\<open>zeros(3)\<close>); here they are
  three real numbers, so rounding and NaN are outside the model.
\<close>

datatype angles = Angles real real real

text \<open>
  An operation as the pass reads it: \<^verbatim>\<open>name\<close>, \<^verbatim>\<open>wires\<close>, its parameters, and the
  outcome of calling \<^verbatim>\<open>single_qubit_rot_angles()\<close> on it. The gate classes are not
  part of the sources at hand, so the outcome of that method call is carried by the object:
  \<open>None\<close> stands for the call raising \<^verbatim>\<open>NotImplementedError\<close> or
  \<^verbatim>\<open>AttributeError\<close>, \<open>Some a\<close> for it returning the angles \<open>a\<close>.
\<close>

record operation =
  name :: string
  wires :: "nat list"
  parameters :: "real list"
  single_qubit_rot_angles :: "angles option"

record 'm tape =
  operations :: "operation list"
  measurements :: "'m list"

text \<open>
  The ambient recording context: \<^verbatim>\<open>apply(x)\<close> and the constructor \<^verbatim>\<open>Rot(...)\<close>
  append to it.
\<close>

datatype 'm queued = QOp operation | QMeas 'm

type_synonym 'm queue = "'m queued list"

definition apply_op :: "operation \<Rightarrow> 'm queue \<Rightarrow> 'm queue" where
  "apply_op g q = q @ [QOp g]"

definition apply_meas :: "'m \<Rightarrow> 'm queue \<Rightarrow> 'm queue" where
  "apply_meas m q = q @ [QMeas m]"

text \<open>
  Modelled from the spec: the class \<^verbatim>\<open>Rot\<close> of \<^verbatim>\<open>pennylane.ops.qubit\<close> is not among
  the sources. The spec calls it "a general single-qubit gate parametrized by three Euler
  angles", built by "a single-qubit composite-rotation gate constructor taking three angles
  and a wire"; its rotation angles are its own parameters.
\<close>

definition Rot :: "angles \<Rightarrow> nat list \<Rightarrow> operation" where
  "Rot a ws = (case a of Angles phi theta omega \<Rightarrow>
     \<lparr>name = ''Rot'', wires = ws, parameters = [phi, theta, omega],
      single_qubit_rot_angles = Some (Angles phi theta omega)\<rparr>)"

section \<open>Helpers of the pass\<close>

text \<open>
  \<^verbatim>\<open>allclose(a, b, rtol, atol)\<close> of \<^verbatim>\<open>pennylane/math/utils.py\<close>: elementwise
  \<^verbatim>\<open>abs(a - b) <= atol + rtol * abs(b)\<close>, conjoined over the elements. The wrapper
  tries the framework's own \<^verbatim>\<open>allclose\<close> and falls back to NumPy's on converted
  arrays; both compute this predicate.
\<close>

definition close :: "real \<Rightarrow> real \<Rightarrow> real \<Rightarrow> real \<Rightarrow> bool" where
  "close rtol atol a b = (\<bar>a - b\<bar> \<le> atol + rtol * \<bar>b\<bar>)"

definition allclose :: "angles \<Rightarrow> angles \<Rightarrow> real \<Rightarrow> real \<Rightarrow> bool" where
  "allclose a b rtol atol = (case a of Angles a1 a2 a3 \<Rightarrow> case b of Angles b1 b2 b3 \<Rightarrow>
     close rtol atol a1 b1 \<and> close rtol atol a2 b2 \<and> close rtol atol a3 b3)"

definition zeros3 :: angles where
  "zeros3 = Angles 0 0 0"

text \<open>
  Modelled from the spec: \<^verbatim>\<open>find_next_gate\<close> of \<^verbatim>\<open>optimization_utils\<close> is not among
  the sources. The spec: "search forward in the remaining list for the next operation whose
  wire-set intersects the current operation's wire-set"; the result is the index of that
  operation in the list searched, or \<open>None\<close>.
\<close>

definition shared_wires :: "nat list \<Rightarrow> nat list \<Rightarrow> bool" where
  "shared_wires ws vs = (set ws \<inter> set vs \<noteq> {})"

fun find_next_gate :: "nat list \<Rightarrow> operation list \<Rightarrow> nat option" where
  "find_next_gate ws [] = None"
| "find_next_gate ws (g # gs) =
     (if shared_wires ws (wires g) then Some 0
      else map_option Suc (find_next_gate ws gs))"

text \<open>\<^verbatim>\<open>list.pop(i)\<close> for an index in range.\<close>

definition pop :: "nat \<Rightarrow> 'a list \<Rightarrow> 'a list" where
  "pop i xs = take i xs @ drop (Suc i) xs"

text \<open>\<^verbatim>\<open>exclude_gates is not None and g.name in exclude_gates\<close>.\<close>

definition is_excluded :: "string list option \<Rightarrow> operation \<Rightarrow> bool" where
  "is_excluded exclude_gates g =
     (case exclude_gates of None \<Rightarrow> False | Some names \<Rightarrow> name g \<in> set names)"

lemma find_next_gate_in_range:
  "find_next_gate ws gs = Some i \<Longrightarrow> i < length gs"
  by (induction gs arbitrary: i) (auto split: if_splits)

lemma length_pop: "i < length xs \<Longrightarrow> length (pop i xs) = length xs - 1"
  by (simp add: pop_def)

section \<open>The pass\<close>

text \<open>
  The inner loop (lines 105 to 129). \<^verbatim>\<open>fuse_rot_angles\<close> is not among the sources and is
  the parameter \<open>fuse\<close>. The loop condition \<^verbatim>\<open>next_gate_idx is not None\<close> is evaluated
  here at the head of each iteration: the source computes the same expression
  \<^verbatim>\<open>find_next_gate(current_gate.wires, list_copy[1:])\<close> before the first iteration
  (line 97) and at the end of every iteration (line 129), on the list as it then is.
  The result is the pair of \<^verbatim>\<open>cumulative_angles\<close> and \<^verbatim>\<open>list_copy\<close> when the loop
  is left. \<^verbatim>\<open>stack\<close> and \<^verbatim>\<open>cast_like\<close> change the representation of the angles
  only and do not appear. The index that \<^verbatim>\<open>find_next_gate\<close> returns is in range
  (\<open>find_next_gate_in_range\<close>), so neither \<^verbatim>\<open>list_copy[next_gate_idx + 1]\<close> nor the
  \<^verbatim>\<open>pop\<close> can raise.
\<close>

function fuse_loop ::
  "(angles \<Rightarrow> angles \<Rightarrow> angles) \<Rightarrow> string list option \<Rightarrow> operation \<Rightarrow>
   angles \<Rightarrow> operation list \<Rightarrow> angles \<times> operation list" where
  "fuse_loop fuse exclude_gates current_gate cumulative_angles list_copy =
     (case find_next_gate (wires current_gate) (tl list_copy) of
        None \<Rightarrow> (cumulative_angles, list_copy)
      | Some next_gate_idx \<Rightarrow>
          (let next_gate = list_copy ! (next_gate_idx + 1) in
           if wires current_gate = wires next_gate then
             if is_excluded exclude_gates next_gate then (cumulative_angles, list_copy)
             else
               (case single_qubit_rot_angles next_gate of
                  None \<Rightarrow> (cumulative_angles, list_copy)
                | Some next_gate_angles \<Rightarrow>
                    fuse_loop fuse exclude_gates current_gate
                      (fuse cumulative_angles next_gate_angles)
                      (pop (next_gate_idx + 1) list_copy))
           else (cumulative_angles, list_copy)))"
  by pat_completeness auto
termination
proof (relation "measure (\<lambda>(fuse, ex, cur, cum, lst). length lst)")
  show "wf (measure (\<lambda>(fuse, ex, cur, cum, lst). length lst))" by simp
next
  fix fuse :: "angles \<Rightarrow> angles \<Rightarrow> angles"
    and exclude_gates :: "string list option" and current_gate :: operation
    and cumulative_angles a :: angles and list_copy :: "operation list" and i :: nat
  assume "find_next_gate (wires current_gate) (tl list_copy) = Some i"
  then have "i < length (tl list_copy)" by (rule find_next_gate_in_range)
  then have "i + 1 < length list_copy" by simp
  then have "length (pop (i + 1) list_copy) < length list_copy"
    by (simp add: length_pop)
  then show "((fuse, exclude_gates, current_gate, fuse cumulative_angles a,
               pop (i + 1) list_copy),
              (fuse, exclude_gates, current_gate, cumulative_angles, list_copy))
             \<in> measure (\<lambda>(fuse, ex, cur, cum, lst). length lst)"
    by simp
qed

declare fuse_loop.simps [simp del]

lemma pop_0 [simp]: "pop 0 xs = tl xs"
  by (simp add: pop_def drop_Suc)

lemma fuse_loop_length:
  "length (snd (fuse_loop fuse ex cur cum lst)) \<le> length lst"
proof (induction fuse ex cur cum lst rule: fuse_loop.induct)
  case (1 fuse ex cur cum lst)
  show ?case
  proof (cases "find_next_gate (wires cur) (tl lst)")
    case None
    then show ?thesis by (simp add: fuse_loop.simps [of fuse ex cur cum lst])
  next
    case (Some i)
    then have "i < length (tl lst)" by (rule find_next_gate_in_range)
    then have len: "length (pop (i + 1) lst) < length lst" by (simp add: length_pop)
    show ?thesis
    proof (cases "wires cur = wires (lst ! (i + 1)) \<and> \<not> is_excluded ex (lst ! (i + 1))
        \<and> single_qubit_rot_angles (lst ! (i + 1)) \<noteq> None")
      case True
      then obtain a where a: "single_qubit_rot_angles (lst ! (i + 1)) = Some a" by auto
      from "1.IH" [OF Some refl _ _ a] True
      have "length (snd (fuse_loop fuse ex cur (fuse cum a) (pop (i + 1) lst)))
            \<le> length (pop (i + 1) lst)" by simp
      with len Some True a show ?thesis
        by (simp add: fuse_loop.simps [of fuse ex cur cum lst])
    next
      case False
      with Some show ?thesis
        by (auto simp: fuse_loop.simps [of fuse ex cur cum lst] Let_def split: option.splits)
    qed
  qed
qed

lemma fuse_loop_nonempty:
  "lst \<noteq> [] \<Longrightarrow> snd (fuse_loop fuse ex cur cum lst) \<noteq> []"
proof (induction fuse ex cur cum lst rule: fuse_loop.induct)
  case (1 fuse ex cur cum lst)
  show ?case
  proof (cases "find_next_gate (wires cur) (tl lst)")
    case None
    with "1.prems" show ?thesis by (simp add: fuse_loop.simps [of fuse ex cur cum lst])
  next
    case (Some i)
    then have "i < length (tl lst)" by (rule find_next_gate_in_range)
    then have ne: "pop (i + 1) lst \<noteq> []"
      by (cases lst) (auto simp: pop_def)
    show ?thesis
    proof (cases "wires cur = wires (lst ! (i + 1)) \<and> \<not> is_excluded ex (lst ! (i + 1))
        \<and> single_qubit_rot_angles (lst ! (i + 1)) \<noteq> None")
      case True
      then obtain a where a: "single_qubit_rot_angles (lst ! (i + 1)) = Some a" by auto
      from "1.IH" [OF Some refl _ _ a ne] True
      have "snd (fuse_loop fuse ex cur (fuse cum a) (pop (i + 1) lst)) \<noteq> []" by simp
      with Some True a show ?thesis
        by (simp add: fuse_loop.simps [of fuse ex cur cum lst])
    next
      case False
      with Some "1.prems" show ?thesis
        by (auto simp: fuse_loop.simps [of fuse ex cur cum lst] Let_def split: option.splits)
    qed
  qed
qed

text \<open>
  One iteration of the outer loop (lines 77 to 136) on the working list and the queue.
  The loop guard makes the list non-empty; \<^verbatim>\<open>list_copy[0]\<close> is its head,
  \<^verbatim>\<open>list_copy[1:]\<close> its tail and \<^verbatim>\<open>list_copy.pop(0)\<close> leaves the tail.
\<close>

fun fusion_step ::
  "(angles \<Rightarrow> angles \<Rightarrow> angles) \<Rightarrow> real \<Rightarrow> string list option \<Rightarrow>
   operation list \<times> 'm queue \<Rightarrow> operation list \<times> 'm queue" where
  "fusion_step fuse atol exclude_gates ([], q) = ([], q)"
| "fusion_step fuse atol exclude_gates (current_gate # rest, q) =
     (let list_copy = current_gate # rest in
      if is_excluded exclude_gates current_gate then
        (pop 0 list_copy, apply_op current_gate q)
      else
        (case single_qubit_rot_angles current_gate of
           None \<Rightarrow> (pop 0 list_copy, apply_op current_gate q)
         | Some angles0 \<Rightarrow>
             (case find_next_gate (wires current_gate) (tl list_copy) of
                None \<Rightarrow> (pop 0 list_copy, apply_op current_gate q)
              | Some next_gate_idx \<Rightarrow>
                  (case fuse_loop fuse exclude_gates current_gate angles0 list_copy of
                     (cumulative_angles, list_copy') \<Rightarrow>
                       (pop 0 list_copy',
                        if \<not> allclose cumulative_angles zeros3 0 atol
                        then apply_op (Rot cumulative_angles (wires current_gate)) q
                        else q)))))"

lemma fusion_step_length:
  "lst \<noteq> [] \<Longrightarrow> length (fst (fusion_step fuse atol ex (lst, q))) < length lst"
proof (cases lst)
  case Nil
  assume "lst \<noteq> []"
  with Nil show ?thesis by simp
next
  case (Cons cur rest)
  have "length (pop 0 (snd (fuse_loop fuse ex cur a (cur # rest)))) < length lst" for a
  proof -
    have le: "length (snd (fuse_loop fuse ex cur a (cur # rest))) \<le> length (cur # rest)"
      by (rule fuse_loop_length)
    have ne: "snd (fuse_loop fuse ex cur a (cur # rest)) \<noteq> []"
      by (rule fuse_loop_nonempty) simp
    from ne have "length (tl (snd (fuse_loop fuse ex cur a (cur # rest))))
        < length (snd (fuse_loop fuse ex cur a (cur # rest)))"
      by (cases "snd (fuse_loop fuse ex cur a (cur # rest))") simp_all
    with le Cons show ?thesis by simp
  qed
  then show ?thesis
    using Cons by (simp add: case_prod_unfold Let_def split: option.splits)
qed

text \<open>The outer loop \<^verbatim>\<open>while len(list_copy) > 0\<close> (line 76).\<close>

function fusion_loop ::
  "(angles \<Rightarrow> angles \<Rightarrow> angles) \<Rightarrow> real \<Rightarrow> string list option \<Rightarrow>
   operation list \<times> 'm queue \<Rightarrow> 'm queue" where
  "fusion_loop fuse atol exclude_gates (list_copy, q) =
     (if length list_copy > 0
      then fusion_loop fuse atol exclude_gates
             (fusion_step fuse atol exclude_gates (list_copy, q))
      else q)"
  by pat_completeness auto
termination
proof (relation "measure (\<lambda>(fuse, atol, ex, lst, q). length lst)")
  show "wf (measure (\<lambda>(fuse, atol, ex, lst, q). length lst))" by simp
next
  fix fuse :: "angles \<Rightarrow> angles \<Rightarrow> angles" and atol :: real
    and exclude_gates :: "string list option" and list_copy :: "operation list"
    and q :: "'m queue"
  assume "0 < length list_copy"
  then have "length (fst (fusion_step fuse atol exclude_gates (list_copy, q))) < length list_copy"
    by (intro fusion_step_length) simp
  then show "((fuse, atol, exclude_gates, fusion_step fuse atol exclude_gates (list_copy, q)),
              (fuse, atol, exclude_gates, list_copy, q))
             \<in> measure (\<lambda>(fuse, atol, ex, lst, q). length lst)"
    by (cases "fusion_step fuse atol exclude_gates (list_copy, q)") simp
qed

text \<open>
  The transform: a working copy of the operations (line 74), the outer loop on an empty
  queue, then the measurements of the tape queued in order (lines 139 and 140).
\<close>

definition single_qubit_fusion ::
  "(angles \<Rightarrow> angles \<Rightarrow> angles) \<Rightarrow> 'm tape \<Rightarrow> real \<Rightarrow> string list option \<Rightarrow> 'm queue" where
  "single_qubit_fusion fuse tp atol exclude_gates =
     (let list_copy = operations tp;
          q = fusion_loop fuse atol exclude_gates (list_copy, [])
      in foldl (\<lambda>q m. apply_meas m q) q (measurements tp))"

section \<open>The new tape, and gates for concrete runs\<close>

text \<open>
  Modelled from the spec: the transform decorator that turns the queue into the new tape is
  not among the sources. The spec: the pass "produces one tape"; a tape is "an ordered
  sequence of Operation plus an ordered sequence of Measurement".
\<close>

fun queued_operations :: "'m queue \<Rightarrow> operation list" where
  "queued_operations [] = []"
| "queued_operations (QOp g # q) = g # queued_operations q"
| "queued_operations (QMeas m # q) = queued_operations q"

fun queued_measurements :: "'m queue \<Rightarrow> 'm list" where
  "queued_measurements [] = []"
| "queued_measurements (QOp g # q) = queued_measurements q"
| "queued_measurements (QMeas m # q) = m # queued_measurements q"

definition tape_of_queue :: "'m queue \<Rightarrow> 'm tape" where
  "tape_of_queue q = \<lparr>operations = queued_operations q, measurements = queued_measurements q\<rparr>"

text \<open>
  Gates and a composition function for the concrete runs. The gate classes and
  \<^verbatim>\<open>fuse_rot_angles\<close> are not among the sources. Modelled from the spec: \<^verbatim>\<open>RZ\<close> is a
  rotation with one angle that supports the decomposition. \<open>Opaque\<close> is no gate of the
  library: it stands for any gate on which \<^verbatim>\<open>single_qubit_rot_angles()\<close> raises.
  \<open>sum_angles\<close> adds the angles componentwise; it stands in for the composition only
  where a run needs a concrete function.
\<close>

definition RZ :: "real \<Rightarrow> nat list \<Rightarrow> operation" where
  "RZ a ws = \<lparr>name = ''RZ'', wires = ws, parameters = [a],
     single_qubit_rot_angles = Some (Angles a 0 0)\<rparr>"

definition Opaque :: "nat list \<Rightarrow> operation" where
  "Opaque ws = \<lparr>name = ''Opaque'', wires = ws, parameters = [],
     single_qubit_rot_angles = None\<rparr>"

text \<open>
  The Hadamard gate. Its class is not among the sources, and the spec says that it "lacks a
  rotation-angle decomposition". The docstring of the pass (lines 49 to 70) shows
  otherwise: in its example the circuit \<^verbatim>\<open>H, Rot, Rot, RZ, RZ\<close> on wire 0 becomes the
  single gate \<^verbatim>\<open>Rot(3.57, 2.09, 2.05)\<close>, so the Hadamard gate is absorbed into the fused
  rotation and has a decomposition. Its angles are those of H as a rotation: up to a
  global phase, H is \<^verbatim>\<open>RZ(0) RY(pi/2) RZ(pi)\<close>, that is \<^verbatim>\<open>Rot(pi, pi/2, 0)\<close>.
\<close>

definition Hadamard :: "nat list \<Rightarrow> operation" where
  "Hadamard ws = \<lparr>name = ''Hadamard'', wires = ws, parameters = [],
     single_qubit_rot_angles = Some (Angles pi (pi / 2) 0)\<rparr>"

definition sum_angles :: "angles \<Rightarrow> angles \<Rightarrow> angles" where
  "sum_angles a b = (case a of Angles a1 a2 a3 \<Rightarrow> case b of Angles b1 b2 b3 \<Rightarrow>
     Angles (a1 + b1) (a2 + b2) (a3 + b3))"

section \<open>A structural reading of the two loops\<close>

text \<open>
  The inner loop scans the list behind the head: it steps over operations that share no
  wire with the head, absorbs an operation on the head's wires that is not excluded and has
  rotation angles, and stops at any other operation that shares a wire. \<open>absorb\<close>
  is this scan by recursion on the list; it returns the cumulative angles, the operations
  left in the list and the operations absorbed. It works on any kind of item that carries
  an operation (\<open>opf\<close>), so that the same scan can be run on operations paired with
  their position in the tape.
\<close>

fun absorb ::
  "('x \<Rightarrow> operation) \<Rightarrow> (angles \<Rightarrow> angles \<Rightarrow> angles) \<Rightarrow> string list option \<Rightarrow>
   operation \<Rightarrow> angles \<Rightarrow> 'x list \<Rightarrow> angles \<times> 'x list \<times> 'x list" where
  "absorb opf fuse ex cur cum [] = (cum, [], [])"
| "absorb opf fuse ex cur cum (x # xs) =
     (if \<not> shared_wires (wires cur) (wires (opf x)) then
        (case absorb opf fuse ex cur cum xs of (c, r, ab) \<Rightarrow> (c, x # r, ab))
      else if wires cur = wires (opf x) \<and> \<not> is_excluded ex (opf x) then
        (case single_qubit_rot_angles (opf x) of
           None \<Rightarrow> (cum, x # xs, [])
         | Some a \<Rightarrow>
             (case absorb opf fuse ex cur (fuse cum a) xs of (c, r, ab) \<Rightarrow> (c, r, x # ab)))
      else (cum, x # xs, []))"

lemma absorb_length:
  "length (fst (snd (absorb opf fuse ex cur cum xs))) \<le> length xs"
  by (induction xs arbitrary: cum) (simp_all add: case_prod_unfold le_SucI split: option.splits)

text \<open>
  \<open>groups\<close> is the outer loop read the same way: one entry per iteration, holding the
  items consumed by the iteration (the head first, then what the inner loop absorbed) and
  the operations the iteration queued (one or none).
\<close>

function groups ::
  "('x \<Rightarrow> operation) \<Rightarrow> (angles \<Rightarrow> angles \<Rightarrow> angles) \<Rightarrow> real \<Rightarrow> string list option \<Rightarrow>
   'x list \<Rightarrow> ('x list \<times> operation list) list" where
  "groups opf fuse atol ex [] = []"
| "groups opf fuse atol ex (x # xs) =
     (if is_excluded ex (opf x) then ([x], [opf x]) # groups opf fuse atol ex xs
      else
        (case single_qubit_rot_angles (opf x) of
           None \<Rightarrow> ([x], [opf x]) # groups opf fuse atol ex xs
         | Some a0 \<Rightarrow>
             (case find_next_gate (wires (opf x)) (map opf xs) of
                None \<Rightarrow> ([x], [opf x]) # groups opf fuse atol ex xs
              | Some i \<Rightarrow>
                  (x # snd (snd (absorb opf fuse ex (opf x) a0 xs)),
                   if \<not> allclose (fst (absorb opf fuse ex (opf x) a0 xs)) zeros3 0 atol
                   then [Rot (fst (absorb opf fuse ex (opf x) a0 xs)) (wires (opf x))]
                   else [])
                  # groups opf fuse atol ex (fst (snd (absorb opf fuse ex (opf x) a0 xs))))))"
  by pat_completeness auto
termination
  by (relation "measure (\<lambda>(opf, fuse, atol, ex, xs). length xs)")
     (auto simp: absorb_length less_Suc_eq_le)

declare groups.simps [simp del]

text \<open>The operations queued by the outer loop, in order.\<close>

definition fused :: "(angles \<Rightarrow> angles \<Rightarrow> angles) \<Rightarrow> real \<Rightarrow> string list option \<Rightarrow>
   operation list \<Rightarrow> operation list" where
  "fused fuse atol ex lst = concat (map snd (groups id fuse atol ex lst))"

text \<open>
  A fusible adjacency: an operation that the pass would take as the head of a group (not
  excluded, with rotation angles) whose next operation on a shared wire is one the inner
  loop would absorb (same wires, not excluded, with rotation angles).
\<close>

definition fusible_next :: "string list option \<Rightarrow> operation \<Rightarrow> operation list \<Rightarrow> bool" where
  "fusible_next ex x xs =
     (\<not> is_excluded ex x \<and> single_qubit_rot_angles x \<noteq> None \<and>
      (case find_next_gate (wires x) xs of
         None \<Rightarrow> False
       | Some i \<Rightarrow> wires x = wires (xs ! i) \<and> \<not> is_excluded ex (xs ! i) \<and>
           single_qubit_rot_angles (xs ! i) \<noteq> None))"

fun fusible_adjacency :: "string list option \<Rightarrow> operation list \<Rightarrow> bool" where
  "fusible_adjacency ex [] = False"
| "fusible_adjacency ex (x # xs) = (fusible_next ex x xs \<or> fusible_adjacency ex xs)"

text \<open>
  What the pass leaves behind: every operation of the output is excluded, or has no
  rotation angles, or has no later operation on any of its wires, or is a \<open>Rot\<close> whose
  angles passed the tolerance check.
\<close>

fun settled :: "real \<Rightarrow> string list option \<Rightarrow> operation list \<Rightarrow> bool" where
  "settled atol ex [] = True"
| "settled atol ex (x # xs) =
     ((is_excluded ex x \<or> find_next_gate (wires x) xs = None \<or>
       (case single_qubit_rot_angles x of
          None \<Rightarrow> True
        | Some c \<Rightarrow> x = Rot c (wires x) \<and> \<not> allclose c zeros3 0 atol)) \<and>
      settled atol ex xs)"

text \<open>
  \<open>on_wires ws xs\<close> are the operations of \<open>xs\<close> that share a wire with \<open>ws\<close>;
  \<^verbatim>\<open>find_next_gate\<close> finds the first of them.
\<close>

definition on_wires :: "nat list \<Rightarrow> operation list \<Rightarrow> operation list" where
  "on_wires ws xs = filter (\<lambda>g. shared_wires ws (wires g)) xs"

section \<open>Properties of the loops\<close>

subsection \<open>The loops compute what the structural reading says\<close>

lemma find_next_gate_None:
  "find_next_gate ws gs = None \<longleftrightarrow> (\<forall>g\<in>set gs. \<not> shared_wires ws (wires g))"
  by (induction gs) auto

lemma find_next_gate_Some:
  "find_next_gate ws gs = Some i \<longleftrightarrow>
     i < length gs \<and> shared_wires ws (wires (gs ! i)) \<and>
     (\<forall>j<i. \<not> shared_wires ws (wires (gs ! j)))"
proof (induction gs arbitrary: i)
  case Nil
  then show ?case by simp
next
  case (Cons g gs)
  show ?case
  proof (cases "shared_wires ws (wires g)")
    case True
    then show ?thesis by (cases i) auto
  next
    case False
    show ?thesis
    proof (cases i)
      case 0
      with False show ?thesis by auto
    next
      case (Suc k)
      have "(\<forall>j<Suc k. \<not> shared_wires ws (wires ((g # gs) ! j))) \<longleftrightarrow>
            (\<forall>j<k. \<not> shared_wires ws (wires (gs ! j)))"
        using False by (auto simp: less_Suc_eq_0_disj)
      with False Suc Cons.IH [of k] show ?thesis by auto
    qed
  qed
qed

lemma fuse_loop_skip:
  assumes "\<not> shared_wires (wires cur) (wires g)"
  shows "fuse_loop fuse ex cur cum (h # g # gs) =
         (fst (fuse_loop fuse ex cur cum (h # gs)),
          h # g # tl (snd (fuse_loop fuse ex cur cum (h # gs))))"
  using assms
proof (induction "length gs" arbitrary: gs cum rule: less_induct)
  case less
  show ?case
  proof (cases "find_next_gate (wires cur) gs")
    case None
    with less.prems show ?thesis
      by (simp add: fuse_loop.simps [of fuse ex cur cum])
  next
    case (Some i)
    then have i: "i < length gs" by (rule find_next_gate_in_range)
    have p2: "pop (Suc (Suc i)) (h # g # gs) = h # g # pop i gs"
      and p1: "pop (Suc i) (h # gs) = h # pop i gs"
      by (simp_all add: pop_def)
    show ?thesis
    proof (cases "wires cur = wires (gs ! i) \<and> \<not> is_excluded ex (gs ! i)
        \<and> single_qubit_rot_angles (gs ! i) \<noteq> None")
      case True
      then obtain a where a: "single_qubit_rot_angles (gs ! i) = Some a" by auto
      have "length (pop i gs) < length gs" using i by (simp add: length_pop)
      from less.hyps [OF this less.prems, of "fuse cum a"]
      show ?thesis using Some True a less.prems
        by (simp add: fuse_loop.simps [of fuse ex cur cum] p1 p2)
    next
      case False
      with Some less.prems show ?thesis
        by (auto simp: fuse_loop.simps [of fuse ex cur cum] Let_def split: option.splits)
    qed
  qed
qed

lemma fuse_loop_absorb:
  "fuse_loop fuse ex cur cum (h # xs) =
     (fst (absorb id fuse ex cur cum xs), h # fst (snd (absorb id fuse ex cur cum xs)))"
proof (induction xs arbitrary: cum)
  case Nil
  show ?case by (simp add: fuse_loop.simps [of fuse ex cur cum])
next
  case (Cons g gs)
  show ?case
  proof (cases "shared_wires (wires cur) (wires g)")
    case False
    then show ?thesis
      by (simp add: fuse_loop_skip Cons.IH case_prod_unfold)
  next
    case True
    have p: "pop (Suc 0) (h # g # gs) = h # gs" by (simp add: pop_def)
    from True show ?thesis
      by (auto simp: fuse_loop.simps [of fuse ex cur cum "h # g # gs"] Let_def p Cons.IH
            case_prod_unfold split: option.splits)
  qed
qed

lemma fused_Nil [simp]: "fused fuse atol ex [] = []"
  by (simp add: fused_def groups.simps)

lemma fused_Cons:
  "fused fuse atol ex (x # xs) =
     (if is_excluded ex x then x # fused fuse atol ex xs
      else
        (case single_qubit_rot_angles x of
           None \<Rightarrow> x # fused fuse atol ex xs
         | Some a0 \<Rightarrow>
             (case find_next_gate (wires x) xs of
                None \<Rightarrow> x # fused fuse atol ex xs
              | Some i \<Rightarrow>
                  (if \<not> allclose (fst (absorb id fuse ex x a0 xs)) zeros3 0 atol
                   then [Rot (fst (absorb id fuse ex x a0 xs)) (wires x)] else [])
                  @ fused fuse atol ex (fst (snd (absorb id fuse ex x a0 xs))))))"
  by (simp add: fused_def groups.simps(2) [of id fuse atol ex x xs] split: option.splits)

lemma fusion_loop_Nil [simp]: "fusion_loop fuse atol ex ([], q) = q"
  by simp

lemma fusion_loop_Cons:
  "fusion_loop fuse atol ex (x # xs, q) =
     fusion_loop fuse atol ex (fusion_step fuse atol ex (x # xs, q))"
  by simp

declare fusion_loop.simps [simp del]

lemma fusion_loop_fused:
  "fusion_loop fuse atol ex (lst, q) = q @ map QOp (fused fuse atol ex lst)"
proof (induction "length lst" arbitrary: lst q rule: less_induct)
  case less
  show ?case
  proof (cases lst)
    case Nil
    then show ?thesis by simp
  next
    case (Cons x xs)
    have IH: "fusion_loop fuse atol ex (ys, q') = q' @ map QOp (fused fuse atol ex ys)"
      if "length ys \<le> length xs" for ys and q' :: "'a queue"
      using less [of ys q'] that Cons by simp
    have len: "length (fst (snd (absorb id fuse ex x a xs))) \<le> length xs" for a
      by (rule absorb_length)
    show ?thesis
      unfolding Cons fusion_loop_Cons
      by (simp add: fused_Cons Let_def apply_op_def fuse_loop_absorb IH len
            split: option.splits)
  qed
qed

lemma foldl_apply_meas: "foldl (\<lambda>q m. apply_meas m q) q ms = q @ map QMeas ms"
  by (induction ms arbitrary: q) (simp_all add: apply_meas_def)

lemma single_qubit_fusion_fused:
  "single_qubit_fusion fuse tp atol ex =
     map QOp (fused fuse atol ex (operations tp)) @ map QMeas (measurements tp)"
  by (simp add: single_qubit_fusion_def Let_def fusion_loop_fused foldl_apply_meas)

lemma queued_operations_append [simp]:
  "queued_operations (p @ q) = queued_operations p @ queued_operations q"
  by (induction p rule: queued_operations.induct) simp_all

lemma queued_measurements_append [simp]:
  "queued_measurements (p @ q) = queued_measurements p @ queued_measurements q"
  by (induction p rule: queued_measurements.induct) simp_all

lemma queued_operations_map [simp]:
  "queued_operations (map QOp gs) = gs" "queued_operations (map QMeas ms) = []"
  by (induction gs, simp_all) (induction ms, simp_all)

lemma queued_measurements_map [simp]:
  "queued_measurements (map QOp gs) = []" "queued_measurements (map QMeas ms) = ms"
  by (induction gs, simp_all) (induction ms, simp_all)

lemma allclose_zeros:
  "allclose (Angles c1 c2 c3) zeros3 0 atol \<longleftrightarrow> \<bar>c1\<bar> \<le> atol \<and> \<bar>c2\<bar> \<le> atol \<and> \<bar>c3\<bar> \<le> atol"
  by (simp add: allclose_def close_def zeros3_def)

lemma fused_fusing:
  assumes "\<not> is_excluded ex x" "single_qubit_rot_angles x = Some a0"
    "find_next_gate (wires x) xs = Some i"
  shows "fused fuse atol ex (x # xs) =
     (if allclose (fst (absorb id fuse ex x a0 xs)) zeros3 0 atol then []
      else [Rot (fst (absorb id fuse ex x a0 xs)) (wires x)])
     @ fused fuse atol ex (fst (snd (absorb id fuse ex x a0 xs)))"
  using assms by (simp add: fused_Cons)

lemma fused_unchanged:
  assumes "is_excluded ex x \<or> single_qubit_rot_angles x = None
    \<or> find_next_gate (wires x) xs = None"
  shows "fused fuse atol ex (x # xs) = x # fused fuse atol ex xs"
  using assms by (auto simp: fused_Cons split: option.splits)

subsection \<open>Excluded gates\<close>

lemma fuse_loop_stops:
  assumes "find_next_gate (wires cur) (tl lst) = Some i"
    and "is_excluded ex (lst ! (i + 1)) \<or> single_qubit_rot_angles (lst ! (i + 1)) = None
      \<or> wires cur \<noteq> wires (lst ! (i + 1))"
  shows "fuse_loop fuse ex cur cum lst = (cum, lst)"
  using assms by (auto simp: fuse_loop.simps [of fuse ex cur cum lst] Let_def)

lemma absorb_filter_excluded:
  "filter (is_excluded ex) (fst (snd (absorb id fuse ex cur cum xs))) = filter (is_excluded ex) xs"
  by (induction xs arbitrary: cum) (simp_all add: case_prod_unfold split: option.splits)

lemma fused_length_induct [case_names Nil unchanged fusing]:
  assumes "P []"
    and "\<And>x xs. is_excluded ex x \<or> single_qubit_rot_angles x = None
           \<or> find_next_gate (wires x) xs = None \<Longrightarrow> P xs \<Longrightarrow> P (x # xs)"
    and "\<And>x xs a0 i. \<not> is_excluded ex x \<Longrightarrow> single_qubit_rot_angles x = Some a0 \<Longrightarrow>
           find_next_gate (wires x) xs = Some i \<Longrightarrow>
           P (fst (snd (absorb id fuse ex x a0 xs))) \<Longrightarrow> P (x # xs)"
  shows "P lst"
proof (induction "length lst" arbitrary: lst rule: less_induct)
  case less
  show ?case
  proof (cases lst)
    case Nil
    with assms(1) show ?thesis by simp
  next
    case (Cons x xs)
    show ?thesis
    proof (cases "is_excluded ex x \<or> single_qubit_rot_angles x = None
           \<or> find_next_gate (wires x) xs = None")
      case True
      then show ?thesis using assms(2) less Cons by simp
    next
      case False
      then obtain a0 i where *: "\<not> is_excluded ex x" "single_qubit_rot_angles x = Some a0"
        "find_next_gate (wires x) xs = Some i" by auto
      have "length (fst (snd (absorb id fuse ex x a0 xs))) < length lst"
        using absorb_length [of id fuse ex x a0 xs] Cons by simp
      then have "P (fst (snd (absorb id fuse ex x a0 xs)))" by (rule less)
      with * show ?thesis using assms(3) Cons by simp
    qed
  qed
qed

lemma fused_subseq_excluded:
  "subseq (filter (is_excluded ex) lst) (fused fuse atol ex lst)"
proof (induction lst rule: fused_length_induct [where ex = ex and fuse = fuse])
  case Nil
  show ?case by simp
next
  case (unchanged x xs)
  then show ?case by (auto simp: fused_unchanged intro: list_emb_Cons)
next
  case (fusing x xs a0 i)
  have "filter (is_excluded ex) (x # xs)
      = filter (is_excluded ex) (fst (snd (absorb id fuse ex x a0 xs)))"
    using fusing(1) by (simp add: absorb_filter_excluded)
  with fusing show ?case
    by (simp add: fused_fusing list_emb_append2 del: filter.simps)
qed

lemma Rot_name [simp]: "name (Rot c ws) = ''Rot''"
  by (cases c) (simp add: Rot_def)

lemma Rot_wires [simp]: "wires (Rot c ws) = ws"
  by (cases c) (simp add: Rot_def)

lemma Rot_angles [simp]: "single_qubit_rot_angles (Rot c ws) = Some c"
  by (cases c) (simp add: Rot_def)

lemma fused_filter_excluded:
  assumes "\<not> is_excluded ex (Rot zeros3 [])"
  shows "filter (is_excluded ex) (fused fuse atol ex lst) = filter (is_excluded ex) lst"
proof (induction lst rule: fused_length_induct [where ex = ex and fuse = fuse])
  case Nil
  show ?case by simp
next
  case (unchanged x xs)
  then show ?case by (simp add: fused_unchanged)
next
  case (fusing x xs a0 i)
  have "\<not> is_excluded ex (Rot c ws)" for c ws
    using assms by (simp add: is_excluded_def split: option.splits)
  with fusing show ?case
    by (simp add: fused_fusing absorb_filter_excluded)
qed

subsection \<open>Iterations of the outer loop\<close>

lemma fusion_loop_iterates:
  "\<exists>n\<le>length lst. (fusion_step fuse atol ex ^^ n) (lst, q) = ([], fusion_loop fuse atol ex (lst, q))"
proof (induction "length lst" arbitrary: lst q rule: less_induct)
  case less
  show ?case
  proof (cases lst)
    case Nil
    then show ?thesis by simp
  next
    case (Cons x xs)
    obtain lst' q' where st: "fusion_step fuse atol ex (lst, q) = (lst', q')"
      by (cases "fusion_step fuse atol ex (lst, q)")
    have "length (fst (fusion_step fuse atol ex (lst, q))) < length lst"
      using Cons by (intro fusion_step_length) simp
    with st have len: "length lst' < length lst" by simp
    from less [OF len, of q'] obtain n where n: "n \<le> length lst'"
      and it: "(fusion_step fuse atol ex ^^ n) (lst', q') = ([], fusion_loop fuse atol ex (lst', q'))"
      by blast
    have "fusion_loop fuse atol ex (lst, q) = fusion_loop fuse atol ex (lst', q')"
      using Cons st by (simp add: fusion_loop_Cons)
    with it st have "(fusion_step fuse atol ex ^^ Suc n) (lst, q) = ([], fusion_loop fuse atol ex (lst, q))"
      by (simp add: funpow_swap1)
    moreover from n len have "Suc n \<le> length lst" by simp
    ultimately show ?thesis by blast
  qed
qed

subsection \<open>A second run\<close>

text \<open>
  The output of a run is \<open>settled\<close>, and a settled list without fusible adjacency is
  left as it is by a run. A run on a tape whose gates with rotation angles act on a single
  wire each, as single-qubit gates do, leaves no fusible adjacency.
\<close>

lemma absorb_remaining_subset:
  "set (fst (snd (absorb id fuse ex cur cum xs))) \<subseteq> set xs"
  by (induction xs arbitrary: cum) (auto simp: case_prod_unfold split: option.splits)

lemma fused_wires:
  "wires ` set (fused fuse atol ex lst) \<subseteq> wires ` set lst"
proof (induction lst rule: fused_length_induct [where ex = ex and fuse = fuse])
  case Nil
  show ?case by simp
next
  case (unchanged x xs)
  then show ?case by (auto simp: fused_unchanged)
next
  case (fusing x xs a0 i)
  have "wires ` set (fst (snd (absorb id fuse ex x a0 xs))) \<subseteq> wires ` set xs"
    using absorb_remaining_subset [of fuse ex x a0 xs] by blast
  with fusing show ?case
    by (auto simp: fused_fusing)
qed

lemma find_next_gate_fused_None:
  assumes "find_next_gate ws lst = None"
  shows "find_next_gate ws (fused fuse atol ex lst) = None"
proof -
  have "\<not> shared_wires ws (wires g)" if "g \<in> set (fused fuse atol ex lst)" for g
  proof -
    from that fused_wires [of fuse atol ex lst] obtain h where "h \<in> set lst" "wires g = wires h"
      by auto
    with assms show ?thesis by (auto simp: find_next_gate_None)
  qed
  then show ?thesis by (simp add: find_next_gate_None)
qed

lemma settled_fused: "settled atol ex (fused fuse atol ex lst)"
proof (induction lst rule: fused_length_induct [where ex = ex and fuse = fuse])
  case Nil
  show ?case by simp
next
  case (unchanged x xs)
  then show ?case
    by (auto simp: fused_unchanged find_next_gate_fused_None)
next
  case (fusing x xs a0 i)
  then show ?case by (simp add: fused_fusing)
qed

lemma absorb_blocked:
  assumes "find_next_gate (wires cur) xs = Some i"
    and "wires cur \<noteq> wires (xs ! i) \<or> is_excluded ex (xs ! i)
         \<or> single_qubit_rot_angles (xs ! i) = None"
  shows "absorb id fuse ex cur cum xs = (cum, xs, [])"
  using assms
proof (induction xs arbitrary: i)
  case Nil
  then show ?case by simp
next
  case (Cons x xs)
  show ?case
  proof (cases "shared_wires (wires cur) (wires x)")
    case True
    with Cons.prems show ?thesis by auto
  next
    case False
    with Cons.prems obtain j where j: "find_next_gate (wires cur) xs = Some j" "i = Suc j"
      by auto
    with Cons.prems(2) have "wires cur \<noteq> wires (xs ! j) \<or> is_excluded ex (xs ! j)
         \<or> single_qubit_rot_angles (xs ! j) = None" by simp
    from Cons.IH [OF j(1) this] False show ?thesis by simp
  qed
qed

lemma fused_fixed:
  assumes "settled atol ex out" and "\<not> fusible_adjacency ex out"
  shows "fused fuse atol ex out = out"
  using assms
proof (induction out)
  case Nil
  show ?case by simp
next
  case (Cons x xs)
  then have IH: "fused fuse atol ex xs = xs" by simp
  show ?case
  proof (cases "is_excluded ex x \<or> single_qubit_rot_angles x = None
           \<or> find_next_gate (wires x) xs = None")
    case True
    then show ?thesis by (simp add: fused_unchanged IH)
  next
    case False
    then obtain c i where *: "\<not> is_excluded ex x" "single_qubit_rot_angles x = Some c"
      "find_next_gate (wires x) xs = Some i" by auto
    with Cons.prems(1) have rot: "x = Rot c (wires x)" "\<not> allclose c zeros3 0 atol"
      by simp_all
    from Cons.prems(2) * have "wires x \<noteq> wires (xs ! i) \<or> is_excluded ex (xs ! i)
         \<or> single_qubit_rot_angles (xs ! i) = None"
      by (auto simp: fusible_next_def)
    from absorb_blocked [OF *(3) this]
    have "absorb id fuse ex x c xs = (c, xs, [])" .
    with fused_fusing [OF *, of fuse atol] rot IH show ?thesis by simp
  qed
qed

lemma find_next_gate_on_wires:
  "find_next_gate ws xs = (case on_wires ws xs of [] \<Rightarrow> None | g # gs \<Rightarrow> find_next_gate ws xs)"
  "find_next_gate ws xs = None \<longleftrightarrow> on_wires ws xs = []"
  by (auto simp: on_wires_def find_next_gate_None filter_empty_conv split: list.splits)

lemma find_next_gate_hd_on_wires:
  "find_next_gate ws xs = Some i \<Longrightarrow> on_wires ws xs \<noteq> [] \<and> xs ! i = hd (on_wires ws xs)"
proof (induction xs arbitrary: i)
  case Nil
  then show ?case by simp
next
  case (Cons x xs)
  then show ?case by (auto simp: on_wires_def split: if_splits)
qed

lemma fusible_next_on_wires:
  "fusible_next ex x xs \<longleftrightarrow>
     \<not> is_excluded ex x \<and> single_qubit_rot_angles x \<noteq> None \<and> on_wires (wires x) xs \<noteq> [] \<and>
     wires x = wires (hd (on_wires (wires x) xs)) \<and>
     \<not> is_excluded ex (hd (on_wires (wires x) xs)) \<and>
     single_qubit_rot_angles (hd (on_wires (wires x) xs)) \<noteq> None"
proof (cases "find_next_gate (wires x) xs")
  case None
  moreover from None have "on_wires (wires x) xs = []" by (simp add: find_next_gate_on_wires(2))
  ultimately show ?thesis by (simp add: fusible_next_def)
next
  case (Some i)
  from find_next_gate_hd_on_wires [OF this] Some show ?thesis
    by (simp add: fusible_next_def)
qed

lemma absorb_on_wires_other:
  assumes "\<not> shared_wires ws (wires cur)"
  shows "on_wires ws (fst (snd (absorb id fuse ex cur cum xs))) = on_wires ws xs"
proof (induction xs arbitrary: cum)
  case Nil
  show ?case by simp
next
  case (Cons x xs)
  show ?case
  proof (cases "wires cur = wires x")
    case True
    with assms have "\<not> shared_wires ws (wires x)" by simp
    with Cons show ?thesis
      by (simp add: on_wires_def case_prod_unfold split: option.splits)
  next
    case False
    with Cons show ?thesis
      by (simp add: on_wires_def case_prod_unfold split: option.splits)
  qed
qed

lemma absorb_stops_at_blocker:
  "on_wires (wires cur) (fst (snd (absorb id fuse ex cur cum xs))) = [] \<or>
   wires cur \<noteq> wires (hd (on_wires (wires cur) (fst (snd (absorb id fuse ex cur cum xs))))) \<or>
   is_excluded ex (hd (on_wires (wires cur) (fst (snd (absorb id fuse ex cur cum xs))))) \<or>
   single_qubit_rot_angles (hd (on_wires (wires cur) (fst (snd (absorb id fuse ex cur cum xs)))))
     = None"
proof (induction xs arbitrary: cum)
  case Nil
  show ?case by (simp add: on_wires_def)
next
  case (Cons x xs)
  show ?case
  proof (cases "shared_wires (wires cur) (wires x)")
    case False
    then have eq: "on_wires (wires cur) (fst (snd (absorb id fuse ex cur cum (x # xs)))) =
        on_wires (wires cur) (fst (snd (absorb id fuse ex cur cum xs)))"
      by (simp add: on_wires_def case_prod_unfold)
    show ?thesis unfolding eq by (rule Cons)
  next
    case True
    show ?thesis
    proof (cases "wires cur = wires x \<and> \<not> is_excluded ex x \<and> single_qubit_rot_angles x \<noteq> None")
      case fus: True
      then obtain a where a: "single_qubit_rot_angles x = Some a" by auto
      with True fus have eq: "fst (snd (absorb id fuse ex cur cum (x # xs))) =
          fst (snd (absorb id fuse ex cur (fuse cum a) xs))"
        by (simp add: case_prod_unfold)
      show ?thesis unfolding eq by (rule Cons)
    next
      case False
      with True have eq: "fst (snd (absorb id fuse ex cur cum (x # xs))) = x # xs"
        by (auto split: option.splits)
      from True have "hd (on_wires (wires cur) (x # xs)) = x" by (simp add: on_wires_def)
      with False show ?thesis unfolding eq by auto
    qed
  qed
qed

lemma on_wires_fused_empty:
  "on_wires ws xs = [] \<Longrightarrow> on_wires ws (fused fuse atol ex xs) = []"
  using find_next_gate_fused_None [of ws xs fuse atol ex]
  by (simp add: find_next_gate_on_wires(2))

lemma blocker_persists:
  assumes "on_wires ws xs \<noteq> []"
    and "is_excluded ex (hd (on_wires ws xs)) \<or> single_qubit_rot_angles (hd (on_wires ws xs)) = None"
  shows "on_wires ws (fused fuse atol ex xs) \<noteq> [] \<and>
         hd (on_wires ws (fused fuse atol ex xs)) = hd (on_wires ws xs)"
  using assms
proof (induction xs rule: fused_length_induct [where ex = ex and fuse = fuse])
  case Nil
  then show ?case by (simp add: on_wires_def)
next
  case (unchanged x xs)
  show ?case
  proof (cases "shared_wires ws (wires x)")
    case True
    with unchanged(1) show ?thesis by (simp add: fused_unchanged on_wires_def)
  next
    case False
    with unchanged.prems have "on_wires ws xs \<noteq> []"
      "is_excluded ex (hd (on_wires ws xs)) \<or> single_qubit_rot_angles (hd (on_wires ws xs)) = None"
      by (simp_all add: on_wires_def)
    from unchanged.IH [OF this] False unchanged(1) show ?thesis
      by (simp add: fused_unchanged on_wires_def)
  qed
next
  case (fusing x xs a0 i)
  let ?r = "fst (snd (absorb id fuse ex x a0 xs))"
  have sh: "\<not> shared_wires ws (wires x)"
  proof
    assume "shared_wires ws (wires x)"
    then have "hd (on_wires ws (x # xs)) = x" by (simp add: on_wires_def)
    with fusing.prems(2) fusing(1,2) show False by simp
  qed
  then have eq: "on_wires ws ?r = on_wires ws xs" by (rule absorb_on_wires_other)
  from sh have x: "on_wires ws (x # xs) = on_wires ws xs" by (simp add: on_wires_def)
  from fusing.prems have "on_wires ws ?r \<noteq> []"
    "is_excluded ex (hd (on_wires ws ?r)) \<or> single_qubit_rot_angles (hd (on_wires ws ?r)) = None"
    unfolding x eq by simp_all
  from fusing.IH [OF this]
  have "on_wires ws (fused fuse atol ex ?r) \<noteq> [] \<and>
         hd (on_wires ws (fused fuse atol ex ?r)) = hd (on_wires ws xs)"
    unfolding eq .
  moreover have "on_wires ws (fused fuse atol ex (x # xs)) = on_wires ws (fused fuse atol ex ?r)"
    using sh by (simp add: fused_fusing [OF fusing(1-3)] on_wires_def)
  ultimately show ?case unfolding x by simp
qed

lemma shared_single_wire:
  assumes "length ws = 1" "length vs = 1" "shared_wires ws vs"
  shows "ws = vs"
proof -
  from assms(1,2) obtain w v where "ws = [w]" "vs = [v]"
    by (auto simp: length_Suc_conv)
  with assms(3) show ?thesis by (simp add: shared_wires_def)
qed

lemma hd_on_wires_shared:
  "on_wires ws xs \<noteq> [] \<Longrightarrow> hd (on_wires ws xs) \<in> set xs \<and> shared_wires ws (wires (hd (on_wires ws xs)))"
  using hd_in_set [of "on_wires ws xs"] by (auto simp: on_wires_def)

lemma single_qubit_gates_leave_no_fusible_adjacency:
  assumes "\<forall>g\<in>set lst. single_qubit_rot_angles g \<noteq> None \<longrightarrow> length (wires g) = 1"
  shows "\<not> fusible_adjacency ex (fused fuse atol ex lst)"
  using assms
proof (induction lst rule: fused_length_induct [where ex = ex and fuse = fuse])
  case Nil
  show ?case by simp
next
  case (unchanged x xs)
  have "\<not> fusible_next ex x (fused fuse atol ex xs)"
    using unchanged(1) on_wires_fused_empty [of "wires x" xs fuse atol ex]
    by (auto simp: fusible_next_on_wires find_next_gate_on_wires(2))
  with unchanged show ?case by (simp add: fused_unchanged)
next
  case (fusing x xs a0 i)
  let ?c = "fst (absorb id fuse ex x a0 xs)"
  let ?r = "fst (snd (absorb id fuse ex x a0 xs))"
  have sub: "set ?r \<subseteq> set xs" by (rule absorb_remaining_subset)
  with fusing.prems have single: "\<forall>g\<in>set ?r. single_qubit_rot_angles g \<noteq> None \<longrightarrow> length (wires g) = 1"
    by auto
  then have IH: "\<not> fusible_adjacency ex (fused fuse atol ex ?r)" by (rule fusing.IH)
  have "\<not> fusible_next ex (Rot ?c (wires x)) (fused fuse atol ex ?r)"
  proof (cases "on_wires (wires x) ?r = []")
    case True
    then have "on_wires (wires x) (fused fuse atol ex ?r) = []" by (rule on_wires_fused_empty)
    then show ?thesis by (simp add: fusible_next_on_wires)
  next
    case False
    let ?b = "hd (on_wires (wires x) ?r)"
    from False absorb_stops_at_blocker [of x fuse ex a0 xs]
    have blk: "wires x \<noteq> wires ?b \<or> is_excluded ex ?b \<or> single_qubit_rot_angles ?b = None"
      by auto
    from False have b: "?b \<in> set ?r" "shared_wires (wires x) (wires ?b)"
      using hd_on_wires_shared [of "wires x" ?r] by simp_all
    have "is_excluded ex ?b \<or> single_qubit_rot_angles ?b = None"
    proof (rule ccontr)
      assume n: "\<not> (is_excluded ex ?b \<or> single_qubit_rot_angles ?b = None)"
      with b(1) single have "length (wires ?b) = 1" by auto
      moreover from fusing(2) fusing.prems have "length (wires x) = 1" by simp
      ultimately have "wires x = wires ?b" using b(2) by (intro shared_single_wire)
      with blk n show False by simp
    qed
    from blocker_persists [OF False this, of fuse atol] this
    show ?thesis by (auto simp: fusible_next_on_wires)
  qed
  with IH show ?case
    by (simp add: fused_fusing [OF fusing(1-3)])
qed

lemma second_run_on_single_qubit_gates:
  assumes "\<forall>g\<in>set (operations tp). single_qubit_rot_angles g \<noteq> None \<longrightarrow> length (wires g) = 1"
  shows "single_qubit_fusion fuse (tape_of_queue (single_qubit_fusion fuse tp atol ex)) atol ex
           = single_qubit_fusion fuse tp atol ex"
proof -
  let ?out = "fused fuse atol ex (operations tp)"
  from assms have "\<not> fusible_adjacency ex ?out"
    by (rule single_qubit_gates_leave_no_fusible_adjacency)
  with settled_fused have "fused fuse atol ex ?out = ?out"
    by (rule fused_fixed)
  then show ?thesis
    by (simp add: single_qubit_fusion_fused tape_of_queue_def)
qed

text \<open>
  With a gate on two wires that has rotation angles a second run can fuse further: here
  such a gate, its angles within the tolerance, blocks the first rotation and is then
  dropped as head of its own group, which leaves two rotations on wire 0 next to each
  other.
\<close>

lemma second_run_may_fuse_across_a_dropped_gate:
  "queued_operations (single_qubit_fusion sum_angles
     \<lparr>operations = [RZ (1 / 10) [0],
        \<lparr>name = ''N'', wires = [0, 1], parameters = [],
         single_qubit_rot_angles = Some (Angles 0 0 0)\<rparr>, RZ (2 / 5) [0]],
      measurements = [()]\<rparr> (1 / 100000000) None) =
     [Rot (Angles (1 / 10) 0 0) [0], RZ (2 / 5) [0]] \<and>
   queued_operations (single_qubit_fusion sum_angles
     \<lparr>operations = [Rot (Angles (1 / 10) 0 0) [0], RZ (2 / 5) [0]], measurements = [()]\<rparr>
     (1 / 100000000) None) = [Rot (Angles (1 / 2) 0 0) [0]]"
  by (simp add: single_qubit_fusion_fused fused_Cons RZ_def is_excluded_def
        shared_wires_def sum_angles_def allclose_zeros Rot_def)

subsection \<open>Groups and positions\<close>

lemma groups_Nil [simp]: "groups opf fuse atol ex [] = []"
  by (simp add: groups.simps)

lemma groups_unchanged:
  assumes "is_excluded ex (opf x) \<or> single_qubit_rot_angles (opf x) = None
    \<or> find_next_gate (wires (opf x)) (map opf xs) = None"
  shows "groups opf fuse atol ex (x # xs) = ([x], [opf x]) # groups opf fuse atol ex xs"
  using assms by (auto simp: groups.simps split: option.splits)

lemma groups_fusing:
  assumes "\<not> is_excluded ex (opf x)" "single_qubit_rot_angles (opf x) = Some a0"
    "find_next_gate (wires (opf x)) (map opf xs) = Some i"
  shows "groups opf fuse atol ex (x # xs) =
     (x # snd (snd (absorb opf fuse ex (opf x) a0 xs)),
      if allclose (fst (absorb opf fuse ex (opf x) a0 xs)) zeros3 0 atol then []
      else [Rot (fst (absorb opf fuse ex (opf x) a0 xs)) (wires (opf x))])
     # groups opf fuse atol ex (fst (snd (absorb opf fuse ex (opf x) a0 xs)))"
  using assms by (simp add: groups.simps)

lemma groups_length_induct [case_names Nil unchanged fusing]:
  assumes "P []"
    and "\<And>x xs. is_excluded ex (opf x) \<or> single_qubit_rot_angles (opf x) = None
           \<or> find_next_gate (wires (opf x)) (map opf xs) = None \<Longrightarrow> P xs \<Longrightarrow> P (x # xs)"
    and "\<And>x xs a0 i. \<not> is_excluded ex (opf x) \<Longrightarrow> single_qubit_rot_angles (opf x) = Some a0 \<Longrightarrow>
           find_next_gate (wires (opf x)) (map opf xs) = Some i \<Longrightarrow>
           P (fst (snd (absorb opf fuse ex (opf x) a0 xs))) \<Longrightarrow> P (x # xs)"
  shows "P lst"
proof (induction "length lst" arbitrary: lst rule: less_induct)
  case less
  show ?case
  proof (cases lst)
    case Nil
    with assms(1) show ?thesis by simp
  next
    case (Cons x xs)
    show ?thesis
    proof (cases "is_excluded ex (opf x) \<or> single_qubit_rot_angles (opf x) = None
           \<or> find_next_gate (wires (opf x)) (map opf xs) = None")
      case True
      then show ?thesis using assms(2) less Cons by simp
    next
      case False
      then obtain a0 i where *: "\<not> is_excluded ex (opf x)"
        "single_qubit_rot_angles (opf x) = Some a0"
        "find_next_gate (wires (opf x)) (map opf xs) = Some i" by auto
      have "length (fst (snd (absorb opf fuse ex (opf x) a0 xs))) < length lst"
        using absorb_length [of opf fuse ex "opf x" a0 xs] Cons by simp
      then have "P (fst (snd (absorb opf fuse ex (opf x) a0 xs)))" by (rule less)
      with * show ?thesis using assms(3) Cons by simp
    qed
  qed
qed

lemma absorb_map:
  "absorb id fuse ex cur cum (map opf xs) =
     (fst (absorb opf fuse ex cur cum xs),
      map opf (fst (snd (absorb opf fuse ex cur cum xs))),
      map opf (snd (snd (absorb opf fuse ex cur cum xs))))"
  by (induction xs arbitrary: cum) (simp_all add: case_prod_unfold split: option.splits)

lemma groups_emitted:
  "concat (map snd (groups opf fuse atol ex xs)) = fused fuse atol ex (map opf xs)"
proof (induction xs rule: groups_length_induct [where ex = ex and fuse = fuse and opf = opf])
  case Nil
  show ?case by simp
next
  case (unchanged x xs)
  then show ?case by (simp add: groups_unchanged fused_unchanged)
next
  case (fusing x xs a0 i)
  from fusing(1-3) have "fused fuse atol ex (opf x # map opf xs) =
     (if allclose (fst (absorb id fuse ex (opf x) a0 (map opf xs))) zeros3 0 atol then []
      else [Rot (fst (absorb id fuse ex (opf x) a0 (map opf xs))) (wires (opf x))])
     @ fused fuse atol ex (fst (snd (absorb id fuse ex (opf x) a0 (map opf xs))))"
    by (rule fused_fusing)
  with fusing show ?case
    by (simp add: groups_fusing absorb_map)
qed

lemma absorb_mset:
  "mset (fst (snd (absorb opf fuse ex cur cum xs))) + mset (snd (snd (absorb opf fuse ex cur cum xs)))
     = mset xs"
  by (induction xs arbitrary: cum) (simp_all add: case_prod_unfold split: option.splits)

lemma groups_members:
  "mset (concat (map fst (groups opf fuse atol ex xs))) = mset xs"
proof (induction xs rule: groups_length_induct [where ex = ex and fuse = fuse and opf = opf])
  case Nil
  show ?case by simp
next
  case (unchanged x xs)
  then show ?case by (simp add: groups_unchanged)
next
  case (fusing x xs a0 i)
  then show ?case
    using absorb_mset [of opf fuse ex "opf x" a0 xs]
    by (simp add: groups_fusing add.commute)
qed

lemma absorb_absorbed_wires:
  "m \<in> set (snd (snd (absorb opf fuse ex cur cum xs))) \<Longrightarrow> wires (opf m) = wires cur"
  by (induction xs arbitrary: cum) (auto simp: case_prod_unfold split: option.splits if_splits)

lemma absorb_remaining_set:
  "set (fst (snd (absorb opf fuse ex cur cum xs))) \<subseteq> set xs"
  by (induction xs arbitrary: cum) (auto simp: case_prod_unfold split: option.splits)

lemma absorb_remaining_sorted:
  "sorted_wrt (<) (map key xs) \<Longrightarrow>
   sorted_wrt (<) (map key (fst (snd (absorb opf fuse ex cur cum xs))))"
proof (induction xs arbitrary: cum)
  case Nil
  show ?case by simp
next
  case (Cons x xs)
  have "key x < key y" if "y \<in> set (fst (snd (absorb opf fuse ex cur c xs)))" for y c
    using that absorb_remaining_set [of opf fuse ex cur c xs] Cons.prems by auto
  with Cons show ?case
    by (auto simp: case_prod_unfold split: option.splits)
qed

lemma absorb_order:
  assumes "sorted_wrt (<) (map key xs)"
    and "m \<in> set (snd (snd (absorb opf fuse ex cur cum xs)))"
    and "y \<in> set (fst (snd (absorb opf fuse ex cur cum xs)))"
    and "shared_wires (wires cur) (wires (opf y))"
  shows "key m < key y"
  using assms
proof (induction xs arbitrary: cum)
  case Nil
  then show ?case by simp
next
  case (Cons x xs)
  show ?case
  proof (cases "shared_wires (wires cur) (wires (opf x))")
    case False
    with Cons.prems have m: "m \<in> set (snd (snd (absorb opf fuse ex cur cum xs)))"
      and y: "y = x \<or> y \<in> set (fst (snd (absorb opf fuse ex cur cum xs)))"
      by (auto simp: case_prod_unfold)
    from y Cons.prems(4) False have "y \<in> set (fst (snd (absorb opf fuse ex cur cum xs)))"
      by auto
    with Cons.IH [OF _ m this Cons.prems(4)] Cons.prems(1) show ?thesis by simp
  next
    case True
    show ?thesis
    proof (cases "wires cur = wires (opf x) \<and> \<not> is_excluded ex (opf x)
        \<and> single_qubit_rot_angles (opf x) \<noteq> None")
      case False
      with True Cons.prems(2) show ?thesis by (auto split: option.splits)
    next
      case fus: True
      then obtain a where a: "single_qubit_rot_angles (opf x) = Some a" by auto
      from True fus a Cons.prems
      have m: "m = x \<or> m \<in> set (snd (snd (absorb opf fuse ex cur (fuse cum a) xs)))"
        and y: "y \<in> set (fst (snd (absorb opf fuse ex cur (fuse cum a) xs)))"
        by (auto simp: case_prod_unfold)
      from m show ?thesis
      proof
        assume "m = x"
        moreover from y absorb_remaining_set [of opf fuse ex cur "fuse cum a" xs]
        have "y \<in> set xs" by auto
        ultimately show ?thesis using Cons.prems(1) by auto
      next
        assume "m \<in> set (snd (snd (absorb opf fuse ex cur (fuse cum a) xs)))"
        from Cons.IH [OF _ this y Cons.prems(4)] Cons.prems(1) show ?thesis by simp
      qed
    qed
  qed
qed

lemma shared_wires_sym: "shared_wires ws vs \<longleftrightarrow> shared_wires vs ws"
  by (auto simp: shared_wires_def)

lemma groups_members_set:
  "set (concat (map fst (groups opf fuse atol ex xs))) = set xs"
  using groups_members [of opf fuse atol ex xs] by (rule mset_eq_setD)

lemma groups_member_of_input:
  assumes "q < length (groups opf fuse atol ex xs)"
    and "y \<in> set (fst (groups opf fuse atol ex xs ! q))"
  shows "y \<in> set xs"
proof -
  from assms have "y \<in> set (concat (map fst (groups opf fuse atol ex xs)))"
    by (auto intro: nth_mem)
  then show ?thesis unfolding groups_members_set .
qed

lemma groups_order:
  assumes "sorted_wrt (<) (map fst xs)"
    and "p < q" and "q < length (groups snd fuse atol ex xs)"
    and "m \<in> set (fst (groups snd fuse atol ex xs ! p))"
    and "y \<in> set (fst (groups snd fuse atol ex xs ! q))"
    and "shared_wires (wires (snd m)) (wires (snd y))"
  shows "fst m < fst y"
  using assms
proof (induction xs arbitrary: p q
    rule: groups_length_induct [where ex = ex and fuse = fuse and opf = snd])
  case Nil
  then show ?case by simp
next
  case (unchanged x xs)
  let ?gs = "groups snd fuse atol ex xs"
  have eq: "groups snd fuse atol ex (x # xs) = ([x], [snd x]) # ?gs"
    using unchanged(1) by (rule groups_unchanged)
  from unchanged.prems(2) obtain q' where q: "q = Suc q'" by (cases q) auto
  with unchanged.prems eq have q': "q' < length ?gs" and y: "y \<in> set (fst (?gs ! q'))"
    by simp_all
  show ?case
  proof (cases p)
    case 0
    with unchanged.prems(4) eq have "m = x" by simp
    moreover from q' y have "y \<in> set xs" by (rule groups_member_of_input)
    ultimately show ?thesis using unchanged.prems(1) by auto
  next
    case (Suc p')
    with unchanged.prems eq q have "p' < q'" "m \<in> set (fst (?gs ! p'))" by simp_all
    with unchanged.IH [OF _ _ q' _ y unchanged.prems(6)] unchanged.prems(1)
    show ?thesis by simp
  qed
next
  case (fusing x xs a0 i)
  let ?r = "fst (snd (absorb snd fuse ex (snd x) a0 xs))"
  let ?ab = "snd (snd (absorb snd fuse ex (snd x) a0 xs))"
  let ?gs = "groups snd fuse atol ex ?r"
  have eq: "groups snd fuse atol ex (x # xs) =
      (x # ?ab, if allclose (fst (absorb snd fuse ex (snd x) a0 xs)) zeros3 0 atol then []
         else [Rot (fst (absorb snd fuse ex (snd x) a0 xs)) (wires (snd x))]) # ?gs"
    using fusing(1-3) by (rule groups_fusing)
  from fusing.prems(1) have sx: "sorted_wrt (<) (map fst xs)" by simp
  then have sr: "sorted_wrt (<) (map fst ?r)" by (rule absorb_remaining_sorted)
  from fusing.prems(2) obtain q' where q: "q = Suc q'" by (cases q) auto
  with fusing.prems eq have q': "q' < length ?gs" and y: "y \<in> set (fst (?gs ! q'))"
    by simp_all
  from q' y have yr: "y \<in> set ?r" by (rule groups_member_of_input)
  show ?case
  proof (cases p)
    case 0
    with fusing.prems(4) eq have "m = x \<or> m \<in> set ?ab" by simp
    then show ?thesis
    proof
      assume "m = x"
      moreover from yr absorb_remaining_set [of snd fuse ex "snd x" a0 xs] have "y \<in> set xs"
        by auto
      ultimately show ?thesis using fusing.prems(1) by auto
    next
      assume m: "m \<in> set ?ab"
      then have "wires (snd m) = wires (snd x)" by (rule absorb_absorbed_wires)
      with fusing.prems(6) have "shared_wires (wires (snd x)) (wires (snd y))" by simp
      with sx m yr show ?thesis by (rule absorb_order)
    qed
  next
    case (Suc p')
    with fusing.prems eq q have "p' < q'" "m \<in> set (fst (?gs ! p'))" by simp_all
    with fusing.IH [OF sr _ q' _ y fusing.prems(6)] show ?thesis by simp
  qed
qed

lemma groups_emission:
  assumes "G \<in> set (groups opf fuse atol ex xs)"
  shows "length (snd G) \<le> 1 \<and> (\<forall>m\<in>set (fst G). \<forall>e\<in>set (snd G). wires e = wires (opf m))"
  using assms
proof (induction xs rule: groups_length_induct [where ex = ex and fuse = fuse and opf = opf])
  case Nil
  then show ?case by simp
next
  case (unchanged x xs)
  then show ?case by (auto simp: groups_unchanged)
next
  case (fusing x xs a0 i)
  have "wires (opf m) = wires (opf x)"
    if "m \<in> set (snd (snd (absorb opf fuse ex (opf x) a0 xs)))" for m
    using that by (rule absorb_absorbed_wires)
  with fusing show ?case
    by (auto simp: groups_fusing split: if_splits)
qed

section \<open>The pass on a store of list objects\<close>

text \<open>
  Python lists are mutable objects: \<^verbatim>\<open>tape.operations\<close> hands out a reference, and
  \<^verbatim>\<open>pop\<close> changes the list it is called on. To say what the pass does to the lists of
  its input tape, the lists live in a store, a tape holds the addresses of its two lists,
  and the pass is written once more with every \<^verbatim>\<open>pop\<close> as an update of the store at the
  address of \<^verbatim>\<open>list_copy\<close>. Operations themselves are values and are never updated by
  the pass. A reference always points to an allocated list; reading an unallocated address
  is given the empty list.
\<close>

type_synonym addr = nat

record 'm store =
  op_lists :: "addr \<rightharpoonup> operation list"
  meas_lists :: "addr \<rightharpoonup> 'm list"
  next_addr :: addr

record tape_ref =
  operations_ref :: addr
  measurements_ref :: addr

definition deref :: "(addr \<rightharpoonup> 'a list) \<Rightarrow> addr \<Rightarrow> 'a list" where
  "deref h a = (case h a of None \<Rightarrow> [] | Some xs \<Rightarrow> xs)"

function fuse_loop_h ::
  "(angles \<Rightarrow> angles \<Rightarrow> angles) \<Rightarrow> string list option \<Rightarrow> operation \<Rightarrow> angles \<Rightarrow>
   addr \<Rightarrow> (addr \<rightharpoonup> operation list) \<Rightarrow> angles \<times> (addr \<rightharpoonup> operation list)" where
  "fuse_loop_h fuse exclude_gates current_gate cumulative_angles list_copy h =
     (case find_next_gate (wires current_gate) (tl (deref h list_copy)) of
        None \<Rightarrow> (cumulative_angles, h)
      | Some next_gate_idx \<Rightarrow>
          (let next_gate = deref h list_copy ! (next_gate_idx + 1) in
           if wires current_gate = wires next_gate then
             if is_excluded exclude_gates next_gate then (cumulative_angles, h)
             else
               (case single_qubit_rot_angles next_gate of
                  None \<Rightarrow> (cumulative_angles, h)
                | Some next_gate_angles \<Rightarrow>
                    fuse_loop_h fuse exclude_gates current_gate
                      (fuse cumulative_angles next_gate_angles) list_copy
                      (h(list_copy \<mapsto> pop (next_gate_idx + 1) (deref h list_copy))))
           else (cumulative_angles, h)))"
  by pat_completeness auto
termination
proof (relation "measure (\<lambda>(fuse, ex, cur, cum, a, h). length (deref h a))")
  show "wf (measure (\<lambda>(fuse, ex, cur, cum, a, h). length (deref h a)))" by simp
next
  fix fuse :: "angles \<Rightarrow> angles \<Rightarrow> angles"
    and exclude_gates :: "string list option" and current_gate :: operation
    and cumulative_angles a :: angles and list_copy :: addr
    and h :: "addr \<rightharpoonup> operation list" and i :: nat
  assume "find_next_gate (wires current_gate) (tl (deref h list_copy)) = Some i"
  then have "i < length (tl (deref h list_copy))" by (rule find_next_gate_in_range)
  then have "length (pop (i + 1) (deref h list_copy)) < length (deref h list_copy)"
    by (simp add: length_pop)
  then show "((fuse, exclude_gates, current_gate, fuse cumulative_angles a, list_copy,
               h(list_copy \<mapsto> pop (i + 1) (deref h list_copy))),
              (fuse, exclude_gates, current_gate, cumulative_angles, list_copy, h))
             \<in> measure (\<lambda>(fuse, ex, cur, cum, a, h). length (deref h a))"
    by (simp add: deref_def)
qed

declare fuse_loop_h.simps [simp del]

lemma deref_upd [simp]: "deref (h(a \<mapsto> xs)) a = xs"
  by (simp add: deref_def)

lemma fuse_loop_h_refines:
  "fuse_loop_h fuse ex cur cum a (h(a \<mapsto> lst)) =
     (fst (fuse_loop fuse ex cur cum lst), h(a \<mapsto> snd (fuse_loop fuse ex cur cum lst)))"
proof (induction fuse ex cur cum lst rule: fuse_loop.induct)
  case (1 fuse ex cur cum lst)
  show ?case
  proof (cases "find_next_gate (wires cur) (tl lst)")
    case None
    then show ?thesis
      by (simp add: fuse_loop_h.simps [of fuse ex cur cum a "h(a \<mapsto> lst)"]
            fuse_loop.simps [of fuse ex cur cum lst] del: fun_upd_apply)
  next
    case (Some i)
    show ?thesis
    proof (cases "wires cur = wires (lst ! (i + 1)) \<and> \<not> is_excluded ex (lst ! (i + 1))
        \<and> single_qubit_rot_angles (lst ! (i + 1)) \<noteq> None")
      case True
      then obtain na where na: "single_qubit_rot_angles (lst ! (i + 1)) = Some na" by auto
      from "1.IH" [OF Some refl _ _ na] True
      have "fuse_loop_h fuse ex cur (fuse cum na) a (h(a \<mapsto> pop (i + 1) lst)) =
         (fst (fuse_loop fuse ex cur (fuse cum na) (pop (i + 1) lst)),
          h(a \<mapsto> snd (fuse_loop fuse ex cur (fuse cum na) (pop (i + 1) lst))))"
        by (simp del: fun_upd_apply)
      with Some True na show ?thesis
        by (simp add: fuse_loop_h.simps [of fuse ex cur cum a "h(a \<mapsto> lst)"]
              fuse_loop.simps [of fuse ex cur cum lst] del: fun_upd_apply)
    next
      case False
      with Some show ?thesis
        by (auto simp: fuse_loop_h.simps [of fuse ex cur cum a "h(a \<mapsto> lst)"]
              fuse_loop.simps [of fuse ex cur cum lst] Let_def simp del: fun_upd_apply
              split: option.splits)
    qed
  qed
qed

text \<open>One iteration of the outer loop, and the outer loop, on the store.\<close>

definition fusion_step_h ::
  "(angles \<Rightarrow> angles \<Rightarrow> angles) \<Rightarrow> real \<Rightarrow> string list option \<Rightarrow> addr \<Rightarrow>
   (addr \<rightharpoonup> operation list) \<times> 'm queue \<Rightarrow> (addr \<rightharpoonup> operation list) \<times> 'm queue" where
  "fusion_step_h fuse atol exclude_gates list_copy s =
     (case s of (h, q) \<Rightarrow>
      (case deref h list_copy of
         [] \<Rightarrow> (h, q)
       | current_gate # rest \<Rightarrow>
           if is_excluded exclude_gates current_gate then
             (h(list_copy \<mapsto> pop 0 (deref h list_copy)), apply_op current_gate q)
           else
             (case single_qubit_rot_angles current_gate of
                None \<Rightarrow> (h(list_copy \<mapsto> pop 0 (deref h list_copy)), apply_op current_gate q)
              | Some angles0 \<Rightarrow>
                  (case find_next_gate (wires current_gate) (tl (deref h list_copy)) of
                     None \<Rightarrow>
                       (h(list_copy \<mapsto> pop 0 (deref h list_copy)), apply_op current_gate q)
                   | Some next_gate_idx \<Rightarrow>
                       (case fuse_loop_h fuse exclude_gates current_gate angles0 list_copy h of
                          (cumulative_angles, h') \<Rightarrow>
                            (h'(list_copy \<mapsto> pop 0 (deref h' list_copy)),
                             if \<not> allclose cumulative_angles zeros3 0 atol
                             then apply_op (Rot cumulative_angles (wires current_gate)) q
                             else q))))))"

lemma fusion_step_h_refines:
  "fusion_step_h fuse atol ex a (h(a \<mapsto> lst), q) =
     (h(a \<mapsto> fst (fusion_step fuse atol ex (lst, q))), snd (fusion_step fuse atol ex (lst, q)))"
proof (cases lst)
  case Nil
  then show ?thesis by (simp add: fusion_step_h_def)
next
  case (Cons cur rest)
  show ?thesis
  proof (cases "is_excluded ex cur \<or> single_qubit_rot_angles cur = None
      \<or> find_next_gate (wires cur) rest = None")
    case True
    then show ?thesis
      by (auto simp: fusion_step_h_def Cons Let_def simp del: fun_upd_apply split: option.splits)
  next
    case False
    then obtain a0 i where *: "\<not> is_excluded ex cur" "single_qubit_rot_angles cur = Some a0"
      "find_next_gate (wires cur) rest = Some i" by auto
    then show ?thesis
      by (simp add: fusion_step_h_def Cons Let_def fuse_loop_h_refines case_prod_unfold
            del: fun_upd_apply)
  qed
qed

function fusion_loop_h ::
  "(angles \<Rightarrow> angles \<Rightarrow> angles) \<Rightarrow> real \<Rightarrow> string list option \<Rightarrow> addr \<Rightarrow>
   (addr \<rightharpoonup> operation list) \<times> 'm queue \<Rightarrow> (addr \<rightharpoonup> operation list) \<times> 'm queue" where
  "fusion_loop_h fuse atol exclude_gates list_copy (h, q) =
     (if length (deref h list_copy) > 0
      then fusion_loop_h fuse atol exclude_gates list_copy
             (fusion_step_h fuse atol exclude_gates list_copy (h, q))
      else (h, q))"
  by pat_completeness auto
termination
proof (relation "measure (\<lambda>(fuse, atol, ex, a, h, q). length (deref h a))")
  show "wf (measure (\<lambda>(fuse, atol, ex, a, h, q). length (deref h a)))" by simp
next
  fix fuse :: "angles \<Rightarrow> angles \<Rightarrow> angles" and atol :: real
    and exclude_gates :: "string list option" and list_copy :: addr
    and h :: "addr \<rightharpoonup> operation list" and q :: "'m queue"
  assume pos: "0 < length (deref h list_copy)"
  then obtain lst where lst: "h list_copy = Some lst" "lst \<noteq> []"
    by (auto simp: deref_def split: option.splits)
  from lst(2) have "length (fst (fusion_step fuse atol exclude_gates (lst, q))) < length lst"
    by (rule fusion_step_length)
  moreover from lst(1) have "h = h(list_copy \<mapsto> lst)" by (simp add: map_upd_triv)
  then have "fusion_step_h fuse atol exclude_gates list_copy (h, q) =
      (h(list_copy \<mapsto> fst (fusion_step fuse atol exclude_gates (lst, q))),
       snd (fusion_step fuse atol exclude_gates (lst, q)))"
    using fusion_step_h_refines [of fuse atol exclude_gates list_copy h lst q]
    by (simp del: fun_upd_apply)
  ultimately
  show "((fuse, atol, exclude_gates, list_copy,
          fusion_step_h fuse atol exclude_gates list_copy (h, q)),
         (fuse, atol, exclude_gates, list_copy, h, q))
        \<in> measure (\<lambda>(fuse, atol, ex, a, h, q). length (deref h a))"
    using lst(1) by (simp add: deref_def)
qed

declare fusion_loop_h.simps [simp del]

lemma fusion_loop_h_refines:
  "fusion_loop_h fuse atol ex a (h(a \<mapsto> lst), q) =
     (h(a \<mapsto> []), fusion_loop fuse atol ex (lst, q))"
proof (induction "length lst" arbitrary: lst q rule: less_induct)
  case less
  show ?case
  proof (cases lst)
    case Nil
    then show ?thesis
      by (simp add: fusion_loop_h.simps [of fuse atol ex a "h(a \<mapsto> [])" q]
            del: fun_upd_apply)
  next
    case (Cons x xs)
    let ?l = "fst (fusion_step fuse atol ex (lst, q))"
    let ?q = "snd (fusion_step fuse atol ex (lst, q))"
    from Cons have ne: "0 < length lst" by simp
    then have "length ?l < length lst" by (intro fusion_step_length) simp
    from less.hyps [OF this, of ?q]
    have "fusion_loop_h fuse atol ex a (h(a \<mapsto> ?l), ?q) =
        (h(a \<mapsto> []), fusion_loop fuse atol ex (?l, ?q))" .
    moreover have "fusion_loop fuse atol ex (lst, q) = fusion_loop fuse atol ex (?l, ?q)"
      using ne by (simp add: fusion_loop.simps [of fuse atol ex lst q])
    ultimately show ?thesis
      using ne by (simp add: fusion_loop_h.simps [of fuse atol ex a "h(a \<mapsto> lst)" q]
          fusion_step_h_refines del: fun_upd_apply)
  qed
qed

text \<open>
  The transform on the store: \<^verbatim>\<open>tape.operations.copy()\<close> allocates a new list with the
  same elements (line 74), the loops work at its address, and the measurements are read
  from the tape's list (lines 139 and 140).
\<close>

definition single_qubit_fusion_h ::
  "(angles \<Rightarrow> angles \<Rightarrow> angles) \<Rightarrow> tape_ref \<Rightarrow> real \<Rightarrow> string list option \<Rightarrow>
   'm store \<Rightarrow> 'm store \<times> 'm queue" where
  "single_qubit_fusion_h fuse tp atol exclude_gates st =
     (let list_copy = next_addr st;
          h0 = (op_lists st)(list_copy \<mapsto> deref (op_lists st) (operations_ref tp));
          (h1, q) = fusion_loop_h fuse atol exclude_gates list_copy (h0, [])
      in (st\<lparr>op_lists := h1, next_addr := Suc list_copy\<rparr>,
          foldl (\<lambda>q m. apply_meas m q) q (deref (meas_lists st) (measurements_ref tp))))"

section \<open>The claims\<close>

text \<open>
  C1 (as amended): when the head operation supports \<^verbatim>\<open>single_qubit_rot_angles\<close> and no
  later operation of the remaining list shares a wire with it, the iteration queues the
  head operation itself, unchanged and whatever its angles are, and removes only the head
  from the list; the run on the whole tape starts with the head operation.
\<close>

theorem head_without_next_gate_is_queued_unchanged:
  assumes "single_qubit_rot_angles cur = Some a"
    and "\<forall>g\<in>set rest. set (wires cur) \<inter> set (wires g) = {}"
  shows "fusion_step fuse atol ex (cur # rest, q) = (rest, q @ [QOp cur]) \<and>
         single_qubit_fusion fuse \<lparr>operations = cur # rest, measurements = ms\<rparr> atol ex =
           QOp cur # single_qubit_fusion fuse \<lparr>operations = rest, measurements = ms\<rparr> atol ex"
proof -
  from assms(2) have none: "find_next_gate (wires cur) rest = None"
    by (simp add: find_next_gate_None shared_wires_def)
  with assms(1) have "fusion_step fuse atol ex (cur # rest, q) = (rest, q @ [QOp cur])"
    by (simp add: apply_op_def Let_def)
  moreover from none assms(1) have "fused fuse atol ex (cur # rest) = cur # fused fuse atol ex rest"
    by (simp add: fused_Cons)
  ultimately show ?thesis
    by (simp add: single_qubit_fusion_fused)
qed

theorem head_without_next_gate_is_queued_unchanged_witness:
  "single_qubit_rot_angles (RZ 0 [0]) = Some (Angles 0 0 0) \<and>
   find_next_gate (wires (RZ 0 [0])) [Opaque [1]] = None \<and>
   fusion_step sum_angles (1 / 100000000) None ([RZ 0 [0], Opaque [1]], [] :: unit queue) =
     ([Opaque [1]], [] @ [QOp (RZ 0 [0])]) \<and>
   single_qubit_fusion sum_angles \<lparr>operations = [RZ 0 [0], Opaque [1]], measurements = [()]\<rparr>
       (1 / 100000000) None =
     QOp (RZ 0 [0]) #
     single_qubit_fusion sum_angles \<lparr>operations = [Opaque [1]], measurements = [()]\<rparr>
       (1 / 100000000) None"
proof -
  have h1: "single_qubit_rot_angles (RZ 0 [0]) = Some (Angles 0 0 0)"
    by (simp add: RZ_def)
  have h2: "\<forall>g\<in>set [Opaque [1]]. set (wires (RZ 0 [0])) \<inter> set (wires g) = {}"
    by (simp add: RZ_def Opaque_def)
  have h3: "find_next_gate (wires (RZ 0 [0])) [Opaque [1]] = None"
    by (simp add: RZ_def Opaque_def shared_wires_def)
  from head_without_next_gate_is_queued_unchanged [OF h1 h2] h1 h3
  show ?thesis by blast
qed

theorem near_identity_head_without_next_gate_counterexample:
  "single_qubit_rot_angles (RZ 0 [0]) = Some (Angles 0 0 0) \<and>
   find_next_gate (wires (RZ 0 [0])) [] = None \<and>
   allclose (Angles 0 0 0) zeros3 0 (1 / 100000000) \<and>
   single_qubit_fusion sum_angles \<lparr>operations = [RZ 0 [0]], measurements = []\<rparr>
     (1 / 100000000) None = [QOp (RZ 0 [0]) :: unit queued] \<and>
   RZ 0 [0] \<noteq> Rot (Angles 0 0 0) [0]"
  by (simp add: single_qubit_fusion_fused fused_Cons RZ_def Rot_def allclose_zeros)

text \<open>
  C2: when the head is not excluded, has rotation angles and the inner loop is entered and
  left with cumulative angles \<open>(c1, c2, c3)\<close> and list \<open>lst'\<close>, the iteration queues
  nothing if all three angles are at most \<open>atol\<close> in absolute value, and otherwise
  queues exactly one \<open>Rot\<close> with these angles on the head's wires; in both cases the run
  goes on with \<open>lst'\<close> less its head.
\<close>

theorem tolerance_check_decides_what_a_group_emits:
  assumes "\<not> is_excluded ex cur"
    and "single_qubit_rot_angles cur = Some a0"
    and "find_next_gate (wires cur) rest = Some i"
    and "fuse_loop fuse ex cur a0 (cur # rest) = (Angles c1 c2 c3, lst')"
  shows "fusion_step fuse atol ex (cur # rest, q) =
           (tl lst',
            if \<bar>c1\<bar> \<le> atol \<and> \<bar>c2\<bar> \<le> atol \<and> \<bar>c3\<bar> \<le> atol then q
            else q @ [QOp (Rot (Angles c1 c2 c3) (wires cur))]) \<and>
         single_qubit_fusion fuse \<lparr>operations = cur # rest, measurements = ms\<rparr> atol ex =
           (if \<bar>c1\<bar> \<le> atol \<and> \<bar>c2\<bar> \<le> atol \<and> \<bar>c3\<bar> \<le> atol then []
            else [QOp (Rot (Angles c1 c2 c3) (wires cur))])
           @ single_qubit_fusion fuse \<lparr>operations = tl lst', measurements = ms\<rparr> atol ex"
proof -
  from assms(4) have c: "fst (absorb id fuse ex cur a0 rest) = Angles c1 c2 c3"
    and l: "lst' = cur # fst (snd (absorb id fuse ex cur a0 rest))"
    by (simp_all add: fuse_loop_absorb)
  have step: "fusion_step fuse atol ex (cur # rest, q) =
           (tl lst',
            if \<bar>c1\<bar> \<le> atol \<and> \<bar>c2\<bar> \<le> atol \<and> \<bar>c3\<bar> \<le> atol then q
            else q @ [QOp (Rot (Angles c1 c2 c3) (wires cur))])"
    using assms by (simp add: Let_def apply_op_def allclose_zeros)
  have "fused fuse atol ex (cur # rest) =
      (if \<bar>c1\<bar> \<le> atol \<and> \<bar>c2\<bar> \<le> atol \<and> \<bar>c3\<bar> \<le> atol then []
       else [Rot (Angles c1 c2 c3) (wires cur)]) @ fused fuse atol ex (tl lst')"
    using fused_fusing [OF assms(1-3), of fuse atol] by (simp add: c l allclose_zeros)
  then show ?thesis using step
    by (simp add: single_qubit_fusion_fused)
qed

theorem tolerance_check_decides_what_a_group_emits_witness:
  "fuse_loop sum_angles None (RZ (1 / 10) [0]) (Angles (1 / 10) 0 0)
     [RZ (1 / 10) [0], RZ (- 1 / 10) [0], Opaque [0]] = (Angles 0 0 0, [RZ (1 / 10) [0], Opaque [0]]) \<and>
   single_qubit_fusion sum_angles
     \<lparr>operations = [RZ (1 / 10) [0], RZ (- 1 / 10) [0], Opaque [0]], measurements = [()]\<rparr>
     (1 / 100000000) None =
   [] @ single_qubit_fusion sum_angles
     \<lparr>operations = [Opaque [0]], measurements = [()]\<rparr> (1 / 100000000) None"
proof -
  have h1: "\<not> is_excluded None (RZ (1 / 10) [0])" by (simp add: is_excluded_def)
  have h2: "single_qubit_rot_angles (RZ (1 / 10) [0]) = Some (Angles (1 / 10) 0 0)"
    by (simp add: RZ_def)
  have h3: "find_next_gate (wires (RZ (1 / 10) [0])) [RZ (- 1 / 10) [0], Opaque [0]] = Some 0"
    by (simp add: RZ_def shared_wires_def)
  have h4: "fuse_loop sum_angles None (RZ (1 / 10) [0]) (Angles (1 / 10) 0 0)
     [RZ (1 / 10) [0], RZ (- 1 / 10) [0], Opaque [0]] = (Angles 0 0 0, [RZ (1 / 10) [0], Opaque [0]])"
    by (simp add: fuse_loop_absorb RZ_def Opaque_def shared_wires_def is_excluded_def
          sum_angles_def)
  note tolerance_check_decides_what_a_group_emits
    [OF h1 h2 h3 h4, of "1 / 100000000" "[]" "[()]", THEN conjunct2]
  then show ?thesis using h4 by simp
qed

text \<open>
  C3: pair every operation of the tape with its position and let \<open>gs\<close> be the groups the
  pass forms, in the order of the outer loop's iterations: each group holds the operations
  one iteration consumed and the operation it queued, if any. Then the output is the
  groups' queued operations in this order; every operation of the tape is in exactly one
  group; a group's queued operation acts on the wires of each of its members; and for two
  operations at positions \<open>i < j\<close> of the tape that share a wire, the group of the first
  is the group of the second or an earlier one. So what replaces the first operation in
  the output never comes after what replaces the second.
\<close>

theorem fusion_keeps_order_on_shared_wires:
  assumes "gs = groups snd fuse atol ex (enumerate 0 (operations tp))"
  shows "queued_operations (single_qubit_fusion fuse tp atol ex) = concat (map snd gs) \<and>
         mset (concat (map fst gs)) = mset (enumerate 0 (operations tp)) \<and>
         (\<forall>G\<in>set gs. length (snd G) \<le> 1 \<and>
            (\<forall>m\<in>set (fst G). \<forall>e\<in>set (snd G). wires e = wires (snd m))) \<and>
         (\<forall>i j p q. i < j \<and> j < length (operations tp) \<and>
            shared_wires (wires (operations tp ! i)) (wires (operations tp ! j)) \<and>
            p < length gs \<and> q < length gs \<and>
            (i, operations tp ! i) \<in> set (fst (gs ! p)) \<and>
            (j, operations tp ! j) \<in> set (fst (gs ! q)) \<longrightarrow> p \<le> q)"
proof (intro conjI allI impI ballI)
  show "queued_operations (single_qubit_fusion fuse tp atol ex) = concat (map snd gs)"
    by (simp add: assms groups_emitted single_qubit_fusion_fused)
next
  show "mset (concat (map fst gs)) = mset (enumerate 0 (operations tp))"
    unfolding assms by (rule groups_members)
next
  fix G assume "G \<in> set gs"
  then show "length (snd G) \<le> 1" using groups_emission assms by blast
next
  fix G m e assume "G \<in> set gs" "m \<in> set (fst G)" "e \<in> set (snd G)"
  then show "wires e = wires (snd m)" using groups_emission assms by blast
next
  fix i j p q
  assume a: "i < j \<and> j < length (operations tp) \<and>
            shared_wires (wires (operations tp ! i)) (wires (operations tp ! j)) \<and>
            p < length gs \<and> q < length gs \<and>
            (i, operations tp ! i) \<in> set (fst (gs ! p)) \<and>
            (j, operations tp ! j) \<in> set (fst (gs ! q))"
  show "p \<le> q"
  proof (rule ccontr)
    assume "\<not> p \<le> q"
    then have "q < p" by simp
    moreover have "sorted_wrt (<) (map fst (enumerate 0 (operations tp)))"
      by simp
    moreover from a have "shared_wires (wires (snd (j, operations tp ! j)))
        (wires (snd (i, operations tp ! i)))"
      by (simp add: shared_wires_sym)
    ultimately have "fst (j, operations tp ! j) < fst (i, operations tp ! i)"
      using a unfolding assms by (intro groups_order [where p = q and q = p]) auto
    with a show False by simp
  qed
qed

theorem fusion_keeps_order_on_shared_wires_witness:
  "groups snd sum_angles (1 / 100000000) None
     (enumerate 0 [RZ (1 / 10) [0], Opaque [1], RZ (2 / 5) [0], Opaque [0]]) =
     [([(0, RZ (1 / 10) [0]), (2, RZ (2 / 5) [0])], [Rot (Angles (1 / 2) 0 0) [0]]),
      ([(1, Opaque [1])], [Opaque [1]]),
      ([(3, Opaque [0])], [Opaque [0]])] \<and>
   queued_operations (single_qubit_fusion sum_angles
     \<lparr>operations = [RZ (1 / 10) [0], Opaque [1], RZ (2 / 5) [0], Opaque [0]],
      measurements = [()]\<rparr> (1 / 100000000) None) =
     [Rot (Angles (1 / 2) 0 0) [0], Opaque [1], Opaque [0]] \<and>
   (0 :: nat) \<le> 2"
proof -
  let ?ops = "[RZ (1 / 10) [0], Opaque [1], RZ (2 / 5) [0], Opaque [0]]"
  let ?tp = "\<lparr>operations = ?ops, measurements = [()]\<rparr>"
  let ?gs = "[([(0, RZ (1 / 10) [0]), (2, RZ (2 / 5) [0])], [Rot (Angles (1 / 2) 0 0) [0]]),
      ([(1, Opaque [1])], [Opaque [1]]),
      ([(3 :: nat, Opaque [0])], [Opaque [0]])]"
  have g: "groups snd sum_angles (1 / 100000000) None (enumerate 0 ?ops) = ?gs"
    by (simp add: groups.simps RZ_def Opaque_def is_excluded_def shared_wires_def
          sum_angles_def allclose_zeros)
  have g': "?gs = groups snd sum_angles (1 / 100000000) None (enumerate 0 (operations ?tp))"
    using g by simp
  note t = fusion_keeps_order_on_shared_wires [OF g']
  from t have c1: "queued_operations (single_qubit_fusion sum_angles ?tp (1 / 100000000) None)
      = concat (map snd ?gs)" by (rule conjunct1)
  have h: "(2 :: nat) < 3 \<and> 3 < length (operations ?tp) \<and>
      shared_wires (wires (operations ?tp ! 2)) (wires (operations ?tp ! 3)) \<and>
      (0 :: nat) < length ?gs \<and> 2 < length ?gs \<and>
      (2, operations ?tp ! 2) \<in> set (fst (?gs ! 0)) \<and>
      (3, operations ?tp ! 3) \<in> set (fst (?gs ! 2))"
    by (simp add: RZ_def Opaque_def shared_wires_def)
  from t have "\<forall>i j p q. i < j \<and> j < length (operations ?tp) \<and>
      shared_wires (wires (operations ?tp ! i)) (wires (operations ?tp ! j)) \<and>
      p < length ?gs \<and> q < length ?gs \<and>
      (i, operations ?tp ! i) \<in> set (fst (?gs ! p)) \<and>
      (j, operations ?tp ! j) \<in> set (fst (?gs ! q)) \<longrightarrow> p \<le> q"
    by (elim conjE)
  with h have c4: "(0 :: nat) \<le> 2" by blast
  from g c1 c4 show ?thesis by simp
qed



text \<open>
  C5: a gate whose name is in the exclusion set is never merged. As head it is queued
  unchanged and only the head leaves the list; as the next gate it ends the inner loop with
  the angles and the list as they are; over a whole run the excluded gates of the tape
  appear in the output in their order, and when \<^verbatim>\<open>Rot\<close> itself is not excluded, they
  are exactly the excluded gates of the output.
\<close>

theorem excluded_gate_is_never_merged:
  "(is_excluded ex g \<longrightarrow> fusion_step fuse atol ex (g # rest, q) = (rest, q @ [QOp g])) \<and>
   (find_next_gate (wires cur) (tl lst) = Some i \<and> is_excluded ex (lst ! (i + 1)) \<longrightarrow>
      fuse_loop fuse ex cur cum lst = (cum, lst)) \<and>
   subseq (filter (is_excluded ex) (operations tp))
     (queued_operations (single_qubit_fusion fuse tp atol ex)) \<and>
   (\<not> is_excluded ex (Rot zeros3 []) \<longrightarrow>
      filter (is_excluded ex) (queued_operations (single_qubit_fusion fuse tp atol ex)) =
      filter (is_excluded ex) (operations tp))"
proof (intro conjI impI)
  assume "is_excluded ex g"
  then show "fusion_step fuse atol ex (g # rest, q) = (rest, q @ [QOp g])"
    by (simp add: apply_op_def)
next
  assume "find_next_gate (wires cur) (tl lst) = Some i \<and> is_excluded ex (lst ! (i + 1))"
  then show "fuse_loop fuse ex cur cum lst = (cum, lst)"
    by (simp add: fuse_loop_stops)
next
  show "subseq (filter (is_excluded ex) (operations tp))
     (queued_operations (single_qubit_fusion fuse tp atol ex))"
    by (simp add: single_qubit_fusion_fused fused_subseq_excluded)
next
  assume "\<not> is_excluded ex (Rot zeros3 [])"
  then show "filter (is_excluded ex) (queued_operations (single_qubit_fusion fuse tp atol ex)) =
      filter (is_excluded ex) (operations tp)"
    by (simp add: single_qubit_fusion_fused fused_filter_excluded)
qed

theorem excluded_gate_is_never_merged_witness:
  "is_excluded (Some [''RZ'']) (RZ (2 / 5) [0]) \<and>
   fusion_step sum_angles (1 / 100000000) (Some [''RZ''])
     ([RZ (2 / 5) [0], Rot (Angles (1 / 10) (1 / 5) (3 / 10)) [0]], [] :: unit queue) =
     ([Rot (Angles (1 / 10) (1 / 5) (3 / 10)) [0]], [QOp (RZ (2 / 5) [0])]) \<and>
   fuse_loop sum_angles (Some [''RZ'']) (Rot (Angles (1 / 10) (1 / 5) (3 / 10)) [0])
     (Angles (1 / 10) (1 / 5) (3 / 10))
     [Rot (Angles (1 / 10) (1 / 5) (3 / 10)) [0], RZ (2 / 5) [0]] =
     (Angles (1 / 10) (1 / 5) (3 / 10),
      [Rot (Angles (1 / 10) (1 / 5) (3 / 10)) [0], RZ (2 / 5) [0]]) \<and>
   filter (is_excluded (Some [''RZ'']))
     (queued_operations (single_qubit_fusion sum_angles
        \<lparr>operations = [Rot (Angles (1 / 10) (1 / 5) (3 / 10)) [0], RZ (2 / 5) [0],
                        Rot (Angles (1 / 10) (1 / 5) (3 / 10)) [0]],
         measurements = [()]\<rparr> (1 / 100000000) (Some [''RZ'']))) = [RZ (2 / 5) [0]]"
proof -
  let ?ex = "Some [''RZ'']" and ?r = "Rot (Angles (1 / 10) (1 / 5) (3 / 10)) [0]"
  let ?tp = "\<lparr>operations = [?r, RZ (2 / 5) [0], ?r], measurements = [()]\<rparr>"
  note t = excluded_gate_is_never_merged [where ex = ?ex and g = "RZ (2 / 5) [0]"
      and fuse = sum_angles and atol = "1 / 100000000" and rest = "[?r]"
      and q = "[] :: unit queue" and cur = ?r and lst = "[?r, RZ (2 / 5) [0]]" and i = 0
      and cum = "Angles (1 / 10) (1 / 5) (3 / 10)" and tp = ?tp]
  have h1: "is_excluded ?ex (RZ (2 / 5) [0])" by (simp add: is_excluded_def RZ_def)
  have h2: "find_next_gate (wires ?r) (tl [?r, RZ (2 / 5) [0]]) = Some 0
      \<and> is_excluded ?ex ([?r, RZ (2 / 5) [0]] ! (0 + 1))"
    by (simp add: is_excluded_def RZ_def shared_wires_def)
  have h3: "\<not> is_excluded ?ex (Rot zeros3 [])" by (simp add: is_excluded_def)
  have f: "filter (is_excluded ?ex) (operations ?tp) = [RZ (2 / 5) [0]]"
    by (simp add: is_excluded_def RZ_def)
  from t h1 have c1: "fusion_step sum_angles (1 / 100000000) ?ex ([RZ (2 / 5) [0], ?r], [] :: unit queue)
     = ([?r], [] @ [QOp (RZ (2 / 5) [0])])" by blast
  from t h2 have c2: "fuse_loop sum_angles ?ex ?r (Angles (1 / 10) (1 / 5) (3 / 10)) [?r, RZ (2 / 5) [0]]
     = (Angles (1 / 10) (1 / 5) (3 / 10), [?r, RZ (2 / 5) [0]])" by blast
  from t h3 have c3: "filter (is_excluded ?ex)
     (queued_operations (single_qubit_fusion sum_angles ?tp (1 / 100000000) ?ex))
     = filter (is_excluded ?ex) (operations ?tp)" by blast
  from h1 c1 c2 c3 f show ?thesis by simp
qed

text \<open>
  C6 (as amended): a gate without the rotation-angle decomposition is no error. As head it
  is queued unchanged and the run goes on with the rest of the tape; as the next gate it
  ends the inner loop with the angles and the list as they are. A tape of two operations
  whose first has no decomposition comes out as the same two operations in the same order,
  whatever the second is.
\<close>

theorem gate_without_rot_angles_is_queued_unchanged:
  assumes "single_qubit_rot_angles g = None"
  shows "fusion_step fuse atol ex (g # rest, q) = (rest, q @ [QOp g]) \<and>
         single_qubit_fusion fuse \<lparr>operations = g # rest, measurements = ms\<rparr> atol ex =
           QOp g # single_qubit_fusion fuse \<lparr>operations = rest, measurements = ms\<rparr> atol ex \<and>
         (find_next_gate (wires cur) (tl lst) = Some i \<and> lst ! (i + 1) = g \<longrightarrow>
            fuse_loop fuse ex cur cum lst = (cum, lst)) \<and>
         single_qubit_fusion fuse \<lparr>operations = [g, r], measurements = ms\<rparr> atol ex =
           [QOp g, QOp r] @ map QMeas ms"
proof (intro conjI impI)
  show "fusion_step fuse atol ex (g # rest, q) = (rest, q @ [QOp g])"
    using assms by (simp add: apply_op_def Let_def)
next
  show "single_qubit_fusion fuse \<lparr>operations = g # rest, measurements = ms\<rparr> atol ex =
           QOp g # single_qubit_fusion fuse \<lparr>operations = rest, measurements = ms\<rparr> atol ex"
    using assms by (simp add: single_qubit_fusion_fused fused_unchanged)
next
  assume "find_next_gate (wires cur) (tl lst) = Some i \<and> lst ! (i + 1) = g"
  with assms show "fuse_loop fuse ex cur cum lst = (cum, lst)"
    by (simp add: fuse_loop_stops)
next
  have "fused fuse atol ex [r] = [r]"
    by (simp add: fused_unchanged)
  with assms show "single_qubit_fusion fuse \<lparr>operations = [g, r], measurements = ms\<rparr> atol ex =
           [QOp g, QOp r] @ map QMeas ms"
    by (simp add: single_qubit_fusion_fused fused_unchanged)
qed

theorem gate_without_rot_angles_is_queued_unchanged_witness:
  "single_qubit_rot_angles (Opaque [0]) = None \<and>
   single_qubit_fusion sum_angles
     \<lparr>operations = [Opaque [0], Rot (Angles (1 / 10) (1 / 5) (3 / 10)) [0]],
      measurements = [()]\<rparr> (1 / 100000000) None =
   [QOp (Opaque [0]), QOp (Rot (Angles (1 / 10) (1 / 5) (3 / 10)) [0]), QMeas ()]"
proof -
  have h: "single_qubit_rot_angles (Opaque [0]) = None" by (simp add: Opaque_def)
  note gate_without_rot_angles_is_queued_unchanged [OF h, where fuse = sum_angles
      and atol = "1 / 100000000" and ex = None and ms = "[()]"
      and r = "Rot (Angles (1 / 10) (1 / 5) (3 / 10)) [0]", THEN conjunct2, THEN conjunct2,
      THEN conjunct2]
  with h show ?thesis by simp
qed

text \<open>
  The scenario of the spec is not an instance: the Hadamard gate has a decomposition, and
  the tape \<^verbatim>\<open>[Hadamard(0), Rot(0.1, 0.2, 0.3) on wire 0]\<close> comes out as one \<open>Rot\<close>
  holding the composition of the two, not as two operations.
\<close>

theorem hadamard_then_rot_is_fused_counterexample:
  "single_qubit_rot_angles (Hadamard [0]) = Some (Angles pi (pi / 2) 0) \<and>
   single_qubit_fusion sum_angles
     \<lparr>operations = [Hadamard [0], Rot (Angles (1 / 10) (1 / 5) (3 / 10)) [0]],
      measurements = [()]\<rparr> (1 / 100000000) None =
   [QOp (Rot (sum_angles (Angles pi (pi / 2) 0) (Angles (1 / 10) (1 / 5) (3 / 10))) [0]),
    QMeas ()] \<and>
   length (queued_operations (single_qubit_fusion sum_angles
     \<lparr>operations = [Hadamard [0], Rot (Angles (1 / 10) (1 / 5) (3 / 10)) [0]],
      measurements = [()]\<rparr> (1 / 100000000) None)) = 1"
proof -
  let ?h = "Hadamard [0]" and ?r = "Rot (Angles (1 / 10) (1 / 5) (3 / 10)) [0]"
  let ?c = "sum_angles (Angles pi (pi / 2) 0) (Angles (1 / 10) (1 / 5) (3 / 10))"
  have h: "single_qubit_rot_angles ?h = Some (Angles pi (pi / 2) 0)"
    by (simp add: Hadamard_def)
  have w: "wires ?h = [0]" by (simp add: Hadamard_def)
  have n: "\<not> is_excluded None ?h" by (simp add: is_excluded_def)
  have f: "find_next_gate (wires ?h) [?r] = Some 0"
    by (simp add: w shared_wires_def)
  have ab: "absorb id sum_angles None ?h (Angles pi (pi / 2) 0) [?r] = (?c, [], [?r])"
    by (simp add: w shared_wires_def is_excluded_def)
  have c: "?c = Angles (pi + 1 / 10) (pi / 2 + 1 / 5) (3 / 10)"
    by (simp add: sum_angles_def)
  have nz: "\<not> allclose ?c zeros3 0 (1 / 100000000)"
    unfolding c by (simp add: allclose_zeros)
  have "fused sum_angles (1 / 100000000) None [?h, ?r] = [Rot ?c [0]]"
    using fused_fusing [OF n h f, of sum_angles "1 / 100000000"] nz
    unfolding ab by (simp add: w)
  with h show ?thesis
    by (simp add: single_qubit_fusion_fused)
qed

text \<open>
  C7: four operations on the same non-empty wires, none excluded, each with rotation
  angles, fuse to a single \<open>Rot\<close> on those wires whose angles are the composition, by
  \<^verbatim>\<open>fuse_rot_angles\<close> and from the left, of the four angle triples, provided the composite
  is not within \<open>atol\<close> of zero. The spec's scenario on wire 0 is the instance with
  \<open>Rot(0.1, 0.2, 0.3)\<close>, \<open>Rot(0.4, 0.5, 0.6)\<close>, \<open>RZ(0.1)\<close> and \<open>RZ(0.4)\<close>.
\<close>

theorem four_rotations_on_one_wire_fuse_to_one_Rot:
  assumes "ws \<noteq> []"
    and "wires ga = ws" "wires gb = ws" "wires gc = ws" "wires gd = ws"
    and "\<not> is_excluded ex ga" "\<not> is_excluded ex gb" "\<not> is_excluded ex gc"
      "\<not> is_excluded ex gd"
    and "single_qubit_rot_angles ga = Some aa" "single_qubit_rot_angles gb = Some ab"
      "single_qubit_rot_angles gc = Some ac" "single_qubit_rot_angles gd = Some ad"
    and "\<not> allclose (fuse (fuse (fuse aa ab) ac) ad) zeros3 0 atol"
  shows "single_qubit_fusion fuse \<lparr>operations = [ga, gb, gc, gd], measurements = ms\<rparr> atol ex =
           QOp (Rot (fuse (fuse (fuse aa ab) ac) ad) ws) # map QMeas ms"
proof -
  from assms(1) have sh: "shared_wires ws ws"
    by (cases ws) (simp_all add: shared_wires_def)
  have absorbed: "absorb id fuse ex ga aa [gb, gc, gd] = (fuse (fuse (fuse aa ab) ac) ad, [], [gb, gc, gd])"
    using assms sh by simp
  have "find_next_gate (wires ga) [gb, gc, gd] = Some 0"
    using assms sh by simp
  from fused_fusing [OF assms(6) assms(10) this, of fuse atol]
  have "fused fuse atol ex [ga, gb, gc, gd] = [Rot (fuse (fuse (fuse aa ab) ac) ad) ws]"
    unfolding absorbed using assms(2) assms(14) by simp
  then show ?thesis by (simp add: single_qubit_fusion_fused)
qed

theorem four_rotations_on_one_wire_fuse_to_one_Rot_witness:
  "single_qubit_fusion sum_angles
     \<lparr>operations = [Rot (Angles (1 / 10) (1 / 5) (3 / 10)) [0],
                     Rot (Angles (2 / 5) (1 / 2) (3 / 5)) [0], RZ (1 / 10) [0], RZ (2 / 5) [0]],
      measurements = [()]\<rparr> (1 / 100000000) None =
   [QOp (Rot (Angles 1 (7 / 10) (9 / 10)) [0]), QMeas ()]"
proof -
  let ?p1 = "Angles (1 / 10) (1 / 5) (3 / 10)" and ?p2 = "Angles (2 / 5) (1 / 2) (3 / 5)"
  let ?p3 = "Angles (1 / 10) 0 0" and ?p4 = "Angles (2 / 5) 0 0"
  have c: "sum_angles (sum_angles (sum_angles ?p1 ?p2) ?p3) ?p4 = Angles 1 (7 / 10) (9 / 10)"
    by (simp add: sum_angles_def)
  have nz: "\<not> allclose (sum_angles (sum_angles (sum_angles ?p1 ?p2) ?p3) ?p4) zeros3 0 (1 / 100000000)"
    unfolding c by (simp add: allclose_zeros)
  have "single_qubit_fusion sum_angles
     \<lparr>operations = [Rot ?p1 [0], Rot ?p2 [0], RZ (1 / 10) [0], RZ (2 / 5) [0]],
      measurements = [()]\<rparr> (1 / 100000000) None =
     QOp (Rot (sum_angles (sum_angles (sum_angles ?p1 ?p2) ?p3) ?p4) [0]) # map QMeas [()]"
    using nz
    by (intro four_rotations_on_one_wire_fuse_to_one_Rot [where ex = None and ws = "[0]"
          and fuse = sum_angles and aa = ?p1 and ab = ?p2 and ac = ?p3 and ad = ?p4])
       (simp_all add: is_excluded_def RZ_def)
  then show ?thesis unfolding c by simp
qed

text \<open>
  C8: the output is the operations queued by the loop followed by the measurements of the
  tape, each once, unchanged and in their order; the measurements of the output are
  those of the tape, whatever the loop did with the operations.
\<close>

theorem measurements_are_queued_last_and_unchanged:
  "single_qubit_fusion fuse tp atol ex =
     fusion_loop fuse atol ex (operations tp, []) @ map QMeas (measurements tp) \<and>
   queued_measurements (fusion_loop fuse atol ex (operations tp, [] :: 'm queue)) = [] \<and>
   queued_measurements (single_qubit_fusion fuse tp atol ex) = measurements tp"
  by (simp add: single_qubit_fusion_fused fusion_loop_fused)

theorem measurements_are_queued_last_and_unchanged_witness:
  "single_qubit_fusion sum_angles
     \<lparr>operations = [RZ (1 / 10) [0], RZ (- 1 / 10) [0]], measurements = [''m1'', ''m2'']\<rparr>
     (1 / 100000000) None = [QMeas ''m1'', QMeas ''m2'']"
proof -
  have "fusion_loop sum_angles (1 / 100000000) None
      ([RZ (1 / 10) [0], RZ (- 1 / 10) [0]], [] :: string queue) = []"
    by (simp add: fusion_loop_fused fused_Cons RZ_def is_excluded_def shared_wires_def
          sum_angles_def allclose_zeros)
  then show ?thesis
    unfolding measurements_are_queued_last_and_unchanged [of sum_angles
      "\<lparr>operations = [RZ (1 / 10) [0], RZ (- 1 / 10) [0]], measurements = [''m1'', ''m2'']\<rparr>"
      "1 / 100000000" None, THEN conjunct1]
    by simp
qed

text \<open>
  C9: run on a store in which the tape's two lists are allocated, the pass returns a store
  in which both lists are what they were; the only address of the store whose content
  differs is the one allocated for the working copy; and the queue is the one the pass
  computes from the contents of the two lists.
\<close>

theorem input_tape_is_left_unmodified:
  assumes "operations_ref tp < next_addr st"
    and "op_lists st (operations_ref tp) = Some ops"
    and "meas_lists st (measurements_ref tp) = Some ms"
    and "single_qubit_fusion_h fuse tp atol ex st = (st', q)"
  shows "op_lists st' (operations_ref tp) = Some ops \<and>
         meas_lists st' (measurements_ref tp) = Some ms \<and>
         meas_lists st' = meas_lists st \<and>
         op_lists st' = (op_lists st)(next_addr st \<mapsto> []) \<and>
         q = single_qubit_fusion fuse \<lparr>operations = ops, measurements = ms\<rparr> atol ex"
proof -
  let ?a = "next_addr st"
  let ?h0 = "(op_lists st)(?a \<mapsto> ops)"
  have "fusion_loop_h fuse atol ex ?a (?h0, [] :: 'a queue) =
      (?h0(?a \<mapsto> []), fusion_loop fuse atol ex (ops, []))"
    by (simp add: fusion_loop_h_refines del: fun_upd_apply)
  with assms(2-4) have st': "st' = st\<lparr>op_lists := (op_lists st)(?a \<mapsto> []), next_addr := Suc ?a\<rparr>"
    and q: "q = foldl (\<lambda>q m. apply_meas m q) (fusion_loop fuse atol ex (ops, [])) ms"
    by (simp_all add: single_qubit_fusion_h_def deref_def Let_def)
  from assms(1) have "operations_ref tp \<noteq> ?a" by simp
  with st' q assms(2,3) show ?thesis
    by (simp add: single_qubit_fusion_def Let_def)
qed

theorem input_tape_is_left_unmodified_witness:
  "single_qubit_fusion_h sum_angles \<lparr>operations_ref = 0, measurements_ref = 1\<rparr>
     (1 / 100000000) None
     \<lparr>op_lists = [0 \<mapsto> [RZ (1 / 10) [0], RZ (2 / 5) [0]]], meas_lists = [1 \<mapsto> [()]],
      next_addr = 2\<rparr> =
   (\<lparr>op_lists = [0 \<mapsto> [RZ (1 / 10) [0], RZ (2 / 5) [0]], 2 \<mapsto> []],
     meas_lists = [1 \<mapsto> [()]], next_addr = 3\<rparr>,
    [QOp (Rot (Angles (1 / 2) 0 0) [0]), QMeas ()])"
proof -
  let ?ops = "[RZ (1 / 10) [0], RZ (2 / 5) [0]]"
  let ?tp = "\<lparr>operations_ref = 0, measurements_ref = 1\<rparr>"
  let ?st = "\<lparr>op_lists = [0 \<mapsto> ?ops], meas_lists = [1 \<mapsto> [()]], next_addr = 2\<rparr>"
  obtain st' q where r: "single_qubit_fusion_h sum_angles ?tp (1 / 100000000) None ?st = (st', q)"
    by (cases "single_qubit_fusion_h sum_angles ?tp (1 / 100000000) None ?st")
  have h1: "operations_ref ?tp < next_addr ?st" by simp
  have h2: "op_lists ?st (operations_ref ?tp) = Some ?ops" by simp
  have h3: "meas_lists ?st (measurements_ref ?tp) = Some [()]" by simp
  note t = input_tape_is_left_unmodified [OF h1 h2 h3 r]
  from t have o: "op_lists st' = (op_lists ?st)(next_addr ?st \<mapsto> [])" by blast
  from t have m: "meas_lists st' = meas_lists ?st" by blast
  from t have q: "q = single_qubit_fusion sum_angles
      \<lparr>operations = ?ops, measurements = [()]\<rparr> (1 / 100000000) None" by blast
  have n: "next_addr st' = 3"
    using r by (simp add: single_qubit_fusion_h_def Let_def case_prod_unfold) auto
  have "q = [QOp (Rot (Angles (1 / 2) 0 0) [0]), QMeas ()]"
    unfolding q
    by (simp add: single_qubit_fusion_fused fused_Cons RZ_def is_excluded_def
          shared_wires_def sum_angles_def allclose_zeros)
  moreover have "st' = \<lparr>op_lists = [0 \<mapsto> ?ops, 2 \<mapsto> []], meas_lists = [1 \<mapsto> [()]],
      next_addr = 3\<rparr>"
    using o m n by (cases st') simp
  ultimately show ?thesis using r by simp
qed

text \<open>
  C10: the pass terminates, and within as many outer iterations as the tape has
  operations. An outer iteration on a non-empty list leaves a strictly shorter list; a
  merge of the inner loop pops an index in range and so removes exactly one operation;
  the inner loop never lengthens the list; and iterating the body of the outer loop some
  \<open>n\<close> times, \<open>n\<close> at most the length of the list, empties the list and leaves the
  queue that the loop returns.
\<close>

theorem fusion_terminates_within_length_iterations:
  "(lst \<noteq> [] \<longrightarrow> length (fst (fusion_step fuse atol ex (lst, q))) < length lst) \<and>
   (find_next_gate ws (tl lst) = Some i \<longrightarrow> length (pop (i + 1) lst) + 1 = length lst) \<and>
   length (snd (fuse_loop fuse ex cur cum lst)) \<le> length lst \<and>
   (\<exists>n\<le>length lst.
      (fusion_step fuse atol ex ^^ n) (lst, q) = ([], fusion_loop fuse atol ex (lst, q)))"
proof (intro conjI impI)
  assume "lst \<noteq> []"
  then show "length (fst (fusion_step fuse atol ex (lst, q))) < length lst"
    by (rule fusion_step_length)
next
  assume "find_next_gate ws (tl lst) = Some i"
  then have "i < length (tl lst)" by (rule find_next_gate_in_range)
  then show "length (pop (i + 1) lst) + 1 = length lst"
    by (simp add: length_pop)
next
  show "length (snd (fuse_loop fuse ex cur cum lst)) \<le> length lst"
    by (rule fuse_loop_length)
next
  show "\<exists>n\<le>length lst.
      (fusion_step fuse atol ex ^^ n) (lst, q) = ([], fusion_loop fuse atol ex (lst, q))"
    by (rule fusion_loop_iterates)
qed

theorem fusion_terminates_within_length_iterations_witness:
  "length (fst (fusion_step sum_angles (1 / 100000000) None
     ([RZ (1 / 10) [0], Opaque [1], RZ (2 / 5) [0]], [] :: unit queue))) < 3 \<and>
   length (pop (1 + 1) [RZ (1 / 10) [0], Opaque [1], RZ (2 / 5) [0]]) + 1 = 3"
proof -
  let ?lst = "[RZ (1 / 10) [0], Opaque [1], RZ (2 / 5) [0]]"
  note t = fusion_terminates_within_length_iterations [where lst = ?lst and fuse = sum_angles
      and atol = "1 / 100000000" and ex = None and q = "[] :: unit queue" and ws = "[0]" and i = 1]
  have h1: "?lst \<noteq> []" by simp
  have h2: "find_next_gate [0] (tl ?lst) = Some 1"
    by (simp add: RZ_def Opaque_def shared_wires_def)
  from t h1 have c1: "length (fst (fusion_step sum_angles (1 / 100000000) None
     (?lst, [] :: unit queue))) < length ?lst" by blast
  from t h2 have c2: "length (pop (1 + 1) ?lst) + 1 = length ?lst" by blast
  from c1 c2 show ?thesis by simp
qed

end
